theory Spec2Isabelle
  imports Complex_Main "HOL-Library.Word"
begin

section \<open>Machine integers, constants and failures\<close>

text \<open>
  The benchmark (\<^verbatim>\<open>lookup_benchmark.cc\<close>) works on \<^verbatim>\<open>long\<close> values (64 bit, signed).
  Lookup values are modelled as \<open>int\<close> bounded by \<^verbatim>\<open>LONG_MIN\<close> and \<^verbatim>\<open>LONG_MAX\<close>; the increment
  of the range loop is checked against \<^verbatim>\<open>LONG_MAX\<close>, because a single workload record
  reaches it. The three accumulators of the workload loop are \<open>int\<close> without a bound: each
  query adds at most one to the counter and at least a nanosecond of work per counted block,
  so no run shorter than centuries brings them near \<open>2^63\<close>.
\<close>

definition LONG_MAX :: int where
  "LONG_MAX = 9223372036854775807"

definition LONG_MIN :: int where
  "LONG_MIN = - 9223372036854775808"

definition kLookupBatchSize :: nat where
  "kLookupBatchSize = 1000000"

text \<open>
  Behaviour the C++ standard leaves undefined is a value of the model: reading a variable
  that was never written, signed overflow, and indexing past the end of a vector. The
  program does not stop at these points; the model only records that nothing is guaranteed
  from there on. \<^verbatim>\<open>BitmapIndexOutOfRange\<close> is the failed precondition of \<^verbatim>\<open>Bitmap64::Set\<close>.
\<close>

datatype error =
  UninitializedRead
| SignedOverflow
| BitmapIndexOutOfRange
| VectorIndexOutOfRange

section \<open>Bitmap64\<close>

type_synonym Bitmap64 = "bool list"

text \<open>Modelled from the spec: \<^verbatim>\<open>ci::Bitmap64\<close>, of which the benchmark only includes the
  header. \<^verbatim>\<open>Bitmap(size, fill)\<close> creates \<^verbatim>\<open>size\<close> slots all set to \<open>fill\<close>.\<close>

definition Bitmap64_new :: "nat \<Rightarrow> bool \<Rightarrow> Bitmap64" where
  "Bitmap64_new n fill = replicate n fill"

text \<open>Modelled from the spec: \<^verbatim>\<open>Set(i, v)\<close> mutates slot \<^verbatim>\<open>i\<close> and fails if \<^verbatim>\<open>i >= size\<close>.\<close>

definition Bitmap64_Set :: "Bitmap64 \<Rightarrow> nat \<Rightarrow> bool \<Rightarrow> error + Bitmap64" where
  "Bitmap64_Set bm pos v =
     (if pos < length bm then Inr (bm[pos := v]) else Inl BitmapIndexOutOfRange)"

text \<open>Modelled from the spec: \<^verbatim>\<open>TrueIndices()\<close> is the ascending list of the indices that
  are true.\<close>

definition Bitmap64_TrueBitIndices :: "Bitmap64 \<Rightarrow> nat list" where
  "Bitmap64_TrueBitIndices bm = filter (\<lambda>i. bm ! i) [0..<length bm]"

text \<open>Modelled from the spec: \<^verbatim>\<open>PopCount()\<close> is the number of true slots.\<close>

definition Bitmap64_GetOnesCount :: "Bitmap64 \<Rightarrow> nat" where
  "Bitmap64_GetOnesCount bm = length (filter (\<lambda>b. b) bm)"

section \<open>The workload evaluator (the loop at the end of \<^verbatim>\<open>main\<close>)\<close>

subsection \<open>Evaluating one query\<close>

text \<open>The inner loop \<^verbatim>\<open>for (i < tempres.size()) totalres.Set(tempres[i], true)\<close>.\<close>

fun set_all :: "Bitmap64 \<Rightarrow> nat list \<Rightarrow> error + Bitmap64" where
  "set_all totalres [] = Inr totalres"
| "set_all totalres (p # ps) =
     (case Bitmap64_Set totalres p True of
        Inl e \<Rightarrow> Inl e
      | Inr t \<Rightarrow> set_all t ps)"

text \<open>
  The loop \<^verbatim>\<open>for (long value = startv; value <= endv; value++)\<close>. The index structure
  is the parameter \<^verbatim>\<open>index\<close>: \<^verbatim>\<open>index v n\<close> is \<^verbatim>\<open>index->GetQualifyingStripes(v, n)\<close>. Besides the
  accumulated bitmap the function returns the values it passed to the index, in order.
  \<^verbatim>\<open>value++\<close> at \<^verbatim>\<open>LONG_MAX\<close> is signed overflow.
\<close>

function range_loop ::
  "(int \<Rightarrow> nat \<Rightarrow> Bitmap64) \<Rightarrow> nat \<Rightarrow> int \<Rightarrow> int \<Rightarrow> Bitmap64 \<Rightarrow> error + (Bitmap64 \<times> int list)"
where
  "range_loop index num_stripes v endv totalres =
     (if v \<le> endv then
        (case set_all totalres (Bitmap64_TrueBitIndices (index v num_stripes)) of
           Inl e \<Rightarrow> Inl e
         | Inr t \<Rightarrow>
             if v = LONG_MAX then Inl SignedOverflow
             else (case range_loop index num_stripes (v + 1) endv t of
                     Inl e \<Rightarrow> Inl e
                   | Inr (r, calls) \<Rightarrow> Inr (r, v # calls)))
      else Inr (totalres, []))"
  by pat_completeness auto
termination
  by (relation "measure (\<lambda>(index, num_stripes, v, endv, totalres). nat (endv + 1 - v))") auto

declare range_loop.simps [simp del]

subsection \<open>State, output and flushing\<close>

record eval_state =
  blkcount :: int
  timecount :: int
  searchtime :: int

text \<open>
  What the loop prints. The two averages are \<^verbatim>\<open>double\<close>s in the program; here they are the
  exact quotients, as rationals.
\<close>

datatype printed =
  Echo string
| AvgBlk rat
| AvgTime rat

definition initial_state :: eval_state where
  "initial_state = \<lparr>blkcount = 0, timecount = 0, searchtime = 0\<rparr>"

text \<open>The block \<^verbatim>\<open>if (searchtime != 0) { ... }\<close>, which occurs twice in the program with the
  same text: at a header line and after the loop.\<close>

definition flush :: "eval_state \<Rightarrow> printed list \<times> eval_state" where
  "flush st =
     (if searchtime st \<noteq> 0 then
        ([AvgBlk (of_int (blkcount st) / of_int (searchtime st)),
          AvgTime (of_int (timecount st) / (1000000000 * of_int (searchtime st)))],
         st\<lparr>blkcount := 0, timecount := 0, searchtime := 0\<rparr>)
      else ([], st))"

subsection \<open>Reading numbers from a line\<close>

text \<open>
  The program parses the rest of a query line with \<^verbatim>\<open>std::istringstream\<close> and
  \<^verbatim>\<open>operator>>\<close>. This is the behaviour of the standard library for the default stream
  flags (\<^verbatim>\<open>skipws\<close>, \<^verbatim>\<open>dec\<close>) from C++11 on. A stream is its unread text and whether it is
  still \<^verbatim>\<open>good()\<close>. A variable that may be indeterminate is an \<open>option\<close>.
  \<^item> An extraction from a stream that is not good does nothing.
  \<^item> Leading white space is skipped; if the text ends there, nothing is stored.
  \<^item> If no digit follows the optional sign, the extraction fails and stores 0.
  \<^item> A number out of range fails and stores the nearest bound.
  \<^item> Reading digits up to the end of the text sets \<^verbatim>\<open>eofbit\<close>, so the stream is no
    longer good.
\<close>

record istringstream =
  buf :: string
  good :: bool

definition isspace :: "char \<Rightarrow> bool" where
  "isspace c = ((of_char c :: nat) = 32 \<or> (9 \<le> (of_char c :: nat) \<and> (of_char c :: nat) \<le> 13))"

definition isdigit :: "char \<Rightarrow> bool" where
  "isdigit c = (48 \<le> (of_char c :: nat) \<and> (of_char c :: nat) \<le> 57)"

definition digit_value :: "char \<Rightarrow> int" where
  "digit_value c = int (of_char c) - 48"

definition decimal_value :: "string \<Rightarrow> int" where
  "decimal_value ds = foldl (\<lambda>a c. 10 * a + digit_value c) 0 ds"

definition extract_long :: "istringstream \<Rightarrow> int option \<Rightarrow> istringstream \<times> int option" where
  "extract_long iss var =
     (if \<not> good iss then (iss, var)
      else
        let s = dropWhile isspace (buf iss) in
        if s = [] then (\<lparr>buf = [], good = False\<rparr>, var)
        else
          let neg = (hd s = CHR ''-'');
              body = (if hd s = CHR ''-'' \<or> hd s = CHR ''+'' then tl s else s);
              ds = takeWhile isdigit body;
              rest = dropWhile isdigit body;
              v = (if neg then - decimal_value ds else decimal_value ds)
          in
            if ds = [] then (\<lparr>buf = rest, good = False\<rparr>, Some 0)
            else if LONG_MAX < v then (\<lparr>buf = rest, good = False\<rparr>, Some LONG_MAX)
            else if v < LONG_MIN then (\<lparr>buf = rest, good = False\<rparr>, Some LONG_MIN)
            else (\<lparr>buf = rest, good = (rest \<noteq> [])\<rparr>, Some v))"

definition extract_char :: "istringstream \<Rightarrow> char option \<Rightarrow> istringstream \<times> char option" where
  "extract_char iss var =
     (if \<not> good iss then (iss, var)
      else
        let s = dropWhile isspace (buf iss) in
        if s = [] then (\<lparr>buf = [], good = False\<rparr>, var)
        else (\<lparr>buf = tl s, good = True\<rparr>, Some (hd s)))"

text \<open>\<^verbatim>\<open>iss >> startv >> comma >> endv\<close>, with the three variables declared without a value at
  the top of the loop body. The result is the pair \<^verbatim>\<open>(startv, endv)\<close>.\<close>

definition parse_range :: "string \<Rightarrow> int option \<times> int option" where
  "parse_range s =
     (let (iss1, startv) = extract_long \<lparr>buf = s, good = True\<rparr> None;
          (iss2, comma) = extract_char iss1 None;
          (iss3, endv) = extract_long iss2 None
      in (startv, endv))"

text \<open>\<^verbatim>\<open>iss >> startv; endv = startv\<close>.\<close>

definition parse_point :: "string \<Rightarrow> int option \<times> int option" where
  "parse_point s =
     (let (iss1, startv) = extract_long \<lparr>buf = s, good = True\<rparr> None
      in (startv, startv))"

subsection \<open>One iteration of the loop, and the whole loop\<close>

text \<open>\<^verbatim>\<open>line.find(pat) != npos\<close> and \<^verbatim>\<open>line.find(pat) == 0\<close>.\<close>

primrec str_contains :: "string \<Rightarrow> string \<Rightarrow> bool" where
  "str_contains pat [] = (pat = [])"
| "str_contains pat (c # cs) = (take (length pat) (c # cs) = pat \<or> str_contains pat cs)"

definition starts_with :: "string \<Rightarrow> string \<Rightarrow> bool" where
  "starts_with pat s = (take (length pat) s = pat)"

text \<open>
  Lines 304 to 318: count the query, evaluate the range into a fresh bitmap, add its
  population count and the measured time. \<open>d\<close> is what the clock measured for this query,
  in nanoseconds. The result is the printed output (none here), the values passed to the
  index, and the new state.
\<close>

definition evaluate_query ::
  "(int \<Rightarrow> nat \<Rightarrow> Bitmap64) \<Rightarrow> nat \<Rightarrow> eval_state \<Rightarrow> int \<Rightarrow> int option \<times> int option
     \<Rightarrow> error + (printed list \<times> int list \<times> eval_state)"
where
  "evaluate_query index num_stripes st d bounds =
     (case bounds of
        (Some startv, Some endv) \<Rightarrow>
          (case range_loop index num_stripes startv endv (Bitmap64_new num_stripes False) of
             Inl e \<Rightarrow> Inl e
           | Inr (totalres, calls) \<Rightarrow>
               Inr ([], calls,
                    st\<lparr>searchtime := searchtime st + 1,
                       blkcount := blkcount st + int (Bitmap64_GetOnesCount totalres),
                       timecount := timecount st + d\<rparr>))
      | _ \<Rightarrow> Inl UninitializedRead)"

text \<open>The body of \<^verbatim>\<open>while (std::getline(file, line))\<close>, lines 284 to 319.\<close>

definition process_line ::
  "(int \<Rightarrow> nat \<Rightarrow> Bitmap64) \<Rightarrow> nat \<Rightarrow> eval_state \<Rightarrow> string \<Rightarrow> int
     \<Rightarrow> error + (printed list \<times> int list \<times> eval_state)"
where
  "process_line index num_stripes st line d =
     (if str_contains ''selectivity'' line then
        (case flush st of (out, st') \<Rightarrow> Inr (out @ [Echo line], [], st'))
      else if starts_with ''range:'' line then
        evaluate_query index num_stripes st d (parse_range (drop 6 line))
      else if starts_with ''point:'' line then
        evaluate_query index num_stripes st d (parse_point (drop 6 line))
      else Inr ([], [], st))"

text \<open>The loop over the lines of the file; each line comes with the time the clock would
  measure for it.\<close>

fun run_lines ::
  "(int \<Rightarrow> nat \<Rightarrow> Bitmap64) \<Rightarrow> nat \<Rightarrow> eval_state \<Rightarrow> (string \<times> int) list
     \<Rightarrow> error + (printed list \<times> int list \<times> eval_state)"
where
  "run_lines index num_stripes st [] = Inr ([], [], st)"
| "run_lines index num_stripes st ((line, d) # rest) =
     (case process_line index num_stripes st line d of
        Inl e \<Rightarrow> Inl e
      | Inr (out, calls, st') \<Rightarrow>
          (case run_lines index num_stripes st' rest of
             Inl e \<Rightarrow> Inl e
           | Inr (out', calls', st'') \<Rightarrow> Inr (out @ out', calls @ calls', st'')))"

text \<open>Lines 282 to 325: the loop from the initial accumulators, then the final flush.\<close>

definition evaluate_workload ::
  "(int \<Rightarrow> nat \<Rightarrow> Bitmap64) \<Rightarrow> nat \<Rightarrow> (string \<times> int) list
     \<Rightarrow> error + (printed list \<times> int list \<times> eval_state)"
where
  "evaluate_workload index num_stripes workload =
     (case run_lines index num_stripes initial_state workload of
        Inl e \<Rightarrow> Inl e
      | Inr (out, calls, st) \<Rightarrow>
          (case flush st of (out', st') \<Rightarrow> Inr (out @ out', calls, st')))"

subsection \<open>The text of query records\<close>

text \<open>
  The workload format writes a point query as \<^verbatim>\<open>point: V\<close> and a range query as
  \<^verbatim>\<open>range: S,E\<close>, with the numbers in decimal. These functions produce that text; they serve
  to state properties of the evaluator for every value.
\<close>

definition digit_char :: "nat \<Rightarrow> char" where
  "digit_char k = char_of (48 + k)"

fun show_nat :: "nat \<Rightarrow> string" where
  "show_nat k = (if k < 10 then [digit_char k] else show_nat (k div 10) @ [digit_char (k mod 10)])"

declare show_nat.simps [simp del]

definition show_long :: "int \<Rightarrow> string" where
  "show_long v = (if v < 0 then CHR ''-'' # show_nat (nat (- v)) else show_nat (nat v))"

definition point_record :: "int \<Rightarrow> string" where
  "point_record v = ''point: '' @ show_long v"

definition range_record :: "int \<Rightarrow> int \<Rightarrow> string" where
  "range_record s e = ''range: '' @ show_long s @ '','' @ show_long e"

section \<open>The lookup sampler (\<^verbatim>\<open>BM_PositiveDistinctLookup\<close>, \<^verbatim>\<open>BM_NegativeLookup\<close>)\<close>

text \<open>Modelled from the spec: \<^verbatim>\<open>ci::Column\<close>, of which the benchmark only includes the
  header: an ordered sequence of integer values, one per row. A null is a row holding the
  sentinel.\<close>

record Column =
  rows :: "int list"

text \<open>Modelled from the spec: \<^verbatim>\<open>Column.distinct_values()\<close>, the values that occur in the
  column, each once. The benchmark removes the sentinel from this list itself.\<close>

definition distinct_values :: "Column \<Rightarrow> int list" where
  "distinct_values column = remdups (rows column)"

text \<open>Modelled from the spec: \<^verbatim>\<open>Column.Contains(value)\<close>, the membership predicate.\<close>

definition Contains :: "Column \<Rightarrow> int \<Rightarrow> bool" where
  "Contains column v = (v \<in> set (rows column))"

text \<open>
  The pseudo-random generator is deterministic: \<^verbatim>\<open>std::mt19937 gen(42)\<close> is a state \<open>gen\<close>
  of some type \<open>'g\<close>, and drawing from a distribution maps a state to the drawn number and
  the next state. The distributions are parameters: \<open>value_d\<close> is
  \<^verbatim>\<open>uniform_int_distribution<long>(min, max)\<close>, and \<open>offset_d a b\<close> is
  \<^verbatim>\<open>uniform_int_distribution<size_t>(a, b)\<close>.
\<close>

subsection \<open>Negative lookups\<close>

text \<open>\<^verbatim>\<open>while (column.Contains(value)) value = value_d(gen);\<close> on the pair of \<^verbatim>\<open>value\<close> and
  \<^verbatim>\<open>gen\<close>. The loop need not end, so the result is an \<open>option\<close>.\<close>

partial_function (option) redraw ::
  "Column \<Rightarrow> ('g \<Rightarrow> int \<times> 'g) \<Rightarrow> int \<times> 'g \<Rightarrow> (int \<times> 'g) option"
where
  "redraw column value_d vg =
     (if Contains column (fst vg) then redraw column value_d (value_d (snd vg))
      else Some vg)"

text \<open>The loop that fills \<^verbatim>\<open>values\<close>; the first argument is the number of iterations
  left.\<close>

fun negative_values ::
  "nat \<Rightarrow> Column \<Rightarrow> ('g \<Rightarrow> int \<times> 'g) \<Rightarrow> 'g \<Rightarrow> (int list \<times> 'g) option"
where
  "negative_values 0 column value_d gen = Some ([], gen)"
| "negative_values (Suc k) column value_d gen =
     (case redraw column value_d (value_d gen) of
        None \<Rightarrow> None
      | Some (v, gen') \<Rightarrow>
          (case negative_values k column value_d gen' of
             None \<Rightarrow> None
           | Some (vs, gen'') \<Rightarrow> Some (v # vs, gen'')))"

definition BM_NegativeLookup_values ::
  "Column \<Rightarrow> ('g \<Rightarrow> int \<times> 'g) \<Rightarrow> 'g \<Rightarrow> (int list \<times> 'g) option"
where
  "BM_NegativeLookup_values column value_d gen =
     negative_values kLookupBatchSize column value_d gen"

subsection \<open>Positive lookups\<close>

text \<open>Lines 106 to 111: the distinct values without the null sentinel. The sentinel
  \<^verbatim>\<open>ci::Column::kIntNullSentinel\<close> is a parameter.\<close>

definition nonnull_distinct :: "int \<Rightarrow> Column \<Rightarrow> int list" where
  "nonnull_distinct kIntNullSentinel column =
     filter (\<lambda>v. v \<noteq> kIntNullSentinel) (distinct_values column)"

text \<open>\<^verbatim>\<open>distinct_values.size() - 1\<close> in \<^verbatim>\<open>size_t\<close>, which wraps around.\<close>

definition offset_upper :: "int list \<Rightarrow> 64 word" where
  "offset_upper dv = word_of_nat (length dv) - 1"

text \<open>
  The loop that fills \<^verbatim>\<open>values\<close> with \<^verbatim>\<open>distinct_values[distinct_values_offset_d(gen)]\<close>.
  Reading the vector past its end is undefined. Besides the values the function returns the
  offsets it read.
\<close>

fun positive_fill ::
  "nat \<Rightarrow> int list \<Rightarrow> (64 word \<Rightarrow> 64 word \<Rightarrow> 'g \<Rightarrow> 64 word \<times> 'g) \<Rightarrow> 'g
     \<Rightarrow> error + (nat list \<times> int list \<times> 'g)"
where
  "positive_fill 0 dv offset_d gen = Inr ([], [], gen)"
| "positive_fill (Suc k) dv offset_d gen =
     (case offset_d 0 (offset_upper dv) gen of
        (off, gen') \<Rightarrow>
          if unat off < length dv then
            (case positive_fill k dv offset_d gen' of
               Inl e \<Rightarrow> Inl e
             | Inr (offs, vs, gen'') \<Rightarrow> Inr (unat off # offs, dv ! unat off # vs, gen''))
          else Inl VectorIndexOutOfRange)"

definition positive_values ::
  "nat \<Rightarrow> int \<Rightarrow> Column \<Rightarrow> (64 word \<Rightarrow> 64 word \<Rightarrow> 'g \<Rightarrow> 64 word \<times> 'g) \<Rightarrow> 'g
     \<Rightarrow> error + (nat list \<times> int list \<times> 'g)"
where
  "positive_values k kIntNullSentinel column offset_d gen =
     positive_fill k (nonnull_distinct kIntNullSentinel column) offset_d gen"

definition BM_PositiveDistinctLookup_values ::
  "int \<Rightarrow> Column \<Rightarrow> (64 word \<Rightarrow> 64 word \<Rightarrow> 'g \<Rightarrow> 64 word \<times> 'g) \<Rightarrow> 'g
     \<Rightarrow> error + (nat list \<times> int list \<times> 'g)"
where
  "BM_PositiveDistinctLookup_values kIntNullSentinel column offset_d gen =
     positive_values kLookupBatchSize kIntNullSentinel column offset_d gen"

text \<open>What the standard guarantees of \<^verbatim>\<open>uniform_int_distribution(a, b)\<close> when \<open>a \<le> b\<close>: every
  draw lies between \<open>a\<close> and \<open>b\<close>.\<close>

definition draws_within :: "(64 word \<Rightarrow> 64 word \<Rightarrow> 'g \<Rightarrow> 64 word \<times> 'g) \<Rightarrow> bool" where
  "draws_within offset_d =
     (\<forall>a b gen. a \<le> b \<longrightarrow> a \<le> fst (offset_d a b gen) \<and> fst (offset_d a b gen) \<le> b)"

section \<open>An index structure for examples\<close>

text \<open>An index that reports every stripe for every value (it has no false negatives).\<close>

definition all_stripes :: "int \<Rightarrow> nat \<Rightarrow> Bitmap64" where
  "all_stripes v n = replicate n True"

section \<open>Properties of the workload evaluator\<close>

subsection \<open>Auxiliary facts\<close>

lemma run_lines_append:
  "run_lines index n st (xs @ ys) =
     (case run_lines index n st xs of
        Inl e \<Rightarrow> Inl e
      | Inr (out, calls, st') \<Rightarrow>
          (case run_lines index n st' ys of
             Inl e \<Rightarrow> Inl e
           | Inr (out', calls', st'') \<Rightarrow> Inr (out @ out', calls @ calls', st'')))"
proof (induction xs arbitrary: st)
  case Nil
  show ?case by (simp split: sum.splits)
next
  case (Cons x xs)
  obtain line d where x: "x = (line, d)" by (cases x)
  show ?case
    by (simp add: x Cons.IH split: sum.splits prod.splits)
qed

lemma searchtime_flush: "searchtime (snd (flush st)) = 0"
  by (simp add: flush_def)

lemma flush_idle: "searchtime st = 0 \<Longrightarrow> flush st = ([], st)"
  by (simp add: flush_def)

lemma process_header:
  "str_contains ''selectivity'' line \<Longrightarrow>
   process_line index n st line d = Inr (fst (flush st) @ [Echo line], [], snd (flush st))"
  by (simp add: process_line_def split: prod.splits)

text \<open>The bitmap.\<close>

lemma true_bit_indices_set:
  "set (Bitmap64_TrueBitIndices bm) = {i. i < length bm \<and> bm ! i}"
  by (auto simp: Bitmap64_TrueBitIndices_def)

lemma true_bit_indices_new: "Bitmap64_TrueBitIndices (Bitmap64_new n False) = []"
  by (simp add: Bitmap64_TrueBitIndices_def Bitmap64_new_def filter_empty_conv)

lemma ones_count_card:
  "Bitmap64_GetOnesCount bm = card (set (Bitmap64_TrueBitIndices bm))"
  by (simp add: Bitmap64_GetOnesCount_def true_bit_indices_set length_filter_conv_card)

lemma ones_count_new: "Bitmap64_GetOnesCount (Bitmap64_new n False) = 0"
  by (simp add: ones_count_card true_bit_indices_new)

lemma set_all_in_range:
  "\<forall>p\<in>set ps. p < length bm \<Longrightarrow>
   \<exists>t. set_all bm ps = Inr t \<and> length t = length bm
        \<and> set (Bitmap64_TrueBitIndices t) = set (Bitmap64_TrueBitIndices bm) \<union> set ps"
proof (induction ps arbitrary: bm)
  case Nil
  then show ?case by simp
next
  case (Cons p ps)
  have p: "p < length bm" using Cons.prems by simp
  have rest: "\<forall>q\<in>set ps. q < length (bm[p := True])" using Cons.prems by simp
  obtain t where t: "set_all (bm[p := True]) ps = Inr t" "length t = length bm"
    "set (Bitmap64_TrueBitIndices t) = set (Bitmap64_TrueBitIndices (bm[p := True])) \<union> set ps"
    using Cons.IH [OF rest] by auto
  have upd: "set (Bitmap64_TrueBitIndices (bm[p := True])) = insert p (set (Bitmap64_TrueBitIndices bm))"
    using p by (auto simp: true_bit_indices_set nth_list_update)
  show ?case
    using p t upd by (simp add: Bitmap64_Set_def)
qed

lemma set_all_out_of_range:
  "\<not> (\<forall>p\<in>set ps. p < length bm) \<Longrightarrow> set_all bm ps = Inl BitmapIndexOutOfRange"
proof (induction ps arbitrary: bm)
  case Nil
  then show ?case by simp
next
  case (Cons p ps)
  show ?case
  proof (cases "p < length bm")
    case True
    then have "\<not> (\<forall>q\<in>set ps. q < length (bm[p := True]))" using Cons.prems by simp
    then show ?thesis using True Cons.IH by (simp add: Bitmap64_Set_def)
  next
    case False
    then show ?thesis by (simp add: Bitmap64_Set_def)
  qed
qed

lemma range_loop_empty:
  "endv < v \<Longrightarrow> range_loop index n v endv acc = Inr (acc, [])"
  by (simp add: range_loop.simps)

lemma range_loop_union:
  assumes "endv < LONG_MAX"
    and "\<forall>u. v \<le> u \<and> u \<le> endv \<longrightarrow> length (index u n) = n"
    and "length acc = n"
  shows "\<exists>r. range_loop index n v endv acc = Inr (r, [v..endv]) \<and> length r = n
           \<and> set (Bitmap64_TrueBitIndices r) =
               set (Bitmap64_TrueBitIndices acc) \<union>
               (\<Union>u\<in>{v..endv}. set (Bitmap64_TrueBitIndices (index u n)))"
  using assms
proof (induction index n v endv acc rule: range_loop.induct)
  case (1 index n v endv acc)
  show ?case
  proof (cases "v \<le> endv")
    case False
    then show ?thesis using "1.prems" by (simp add: range_loop.simps)
  next
    case True
    have len: "length (index v n) = n" using True "1.prems" by simp
    have inr: "\<forall>p\<in>set (Bitmap64_TrueBitIndices (index v n)). p < length acc"
      using len "1.prems"(3) by (simp add: true_bit_indices_set)
    obtain t where t: "set_all acc (Bitmap64_TrueBitIndices (index v n)) = Inr t"
      "length t = length acc"
      "set (Bitmap64_TrueBitIndices t) =
         set (Bitmap64_TrueBitIndices acc) \<union> set (Bitmap64_TrueBitIndices (index v n))"
      using set_all_in_range [OF inr] by auto
    have nmax: "v \<noteq> LONG_MAX" using True "1.prems"(1) by simp
    have c: "\<forall>u. v + 1 \<le> u \<and> u \<le> endv \<longrightarrow> length (index u n) = n"
      using "1.prems"(2) by simp
    obtain r where r: "range_loop index n (v + 1) endv t = Inr (r, [v + 1..endv])"
      "length r = n"
      "set (Bitmap64_TrueBitIndices r) =
         set (Bitmap64_TrueBitIndices t) \<union>
         (\<Union>u\<in>{v + 1..endv}. set (Bitmap64_TrueBitIndices (index u n)))"
      using "1.IH" [OF True t(1) nmax "1.prems"(1) c] t(2) "1.prems"(3) by auto
    have split: "{v..endv} = insert v {v + 1..endv}" using True by auto
    have "range_loop index n v endv acc = Inr (r, v # [v + 1..endv])"
      using True t(1) nmax r(1) by (subst range_loop.simps) simp
    moreover have "[v..endv] = v # [v + 1..endv]" using True by (rule upto_rec1)
    moreover have "set (Bitmap64_TrueBitIndices r) =
               set (Bitmap64_TrueBitIndices acc) \<union>
               (\<Union>u\<in>{v..endv}. set (Bitmap64_TrueBitIndices (index u n)))"
      unfolding r(3) t(3) split by auto
    ultimately show ?thesis using r(2) by simp
  qed
qed

lemma range_loop_at_LONG_MAX:
  assumes "v \<le> endv" and "endv = LONG_MAX"
    and "\<forall>u. v \<le> u \<and> u \<le> endv \<longrightarrow> length (index u n) = n"
    and "length acc = n"
  shows "range_loop index n v endv acc = Inl SignedOverflow"
  using assms
proof (induction index n v endv acc rule: range_loop.induct)
  case (1 index n v endv acc)
  have len: "length (index v n) = n" using "1.prems" by simp
  have inr: "\<forall>p\<in>set (Bitmap64_TrueBitIndices (index v n)). p < length acc"
    using len "1.prems"(4) by (simp add: true_bit_indices_set)
  obtain t where t: "set_all acc (Bitmap64_TrueBitIndices (index v n)) = Inr t"
    "length t = length acc"
    using set_all_in_range [OF inr] by auto
  show ?case
  proof (cases "v = LONG_MAX")
    case True
    then show ?thesis using "1.prems"(1) t(1) by (subst range_loop.simps) simp
  next
    case False
    have le: "v + 1 \<le> endv" using False "1.prems"(1,2) by simp
    have c: "\<forall>u. v + 1 \<le> u \<and> u \<le> endv \<longrightarrow> length (index u n) = n"
      using "1.prems"(3) by simp
    have "range_loop index n (v + 1) endv t = Inl SignedOverflow"
      using "1.IH" [OF "1.prems"(1) t(1) False le "1.prems"(2) c] t(2) "1.prems"(4) by simp
    then show ?thesis using "1.prems"(1) t(1) False by (subst range_loop.simps) simp
  qed
qed

text \<open>Reading back the decimal text of a number.\<close>

lemma isdigit_digit_char: "k < 10 \<Longrightarrow> isdigit (digit_char k)"
  by (simp add: isdigit_def digit_char_def)

lemma digit_value_digit_char: "k < 10 \<Longrightarrow> digit_value (digit_char k) = int k"
  by (simp add: digit_value_def digit_char_def)

lemma isdigit_not_isspace: "isdigit c \<Longrightarrow> \<not> isspace c"
  by (auto simp: isdigit_def isspace_def)

lemma show_nat_digits: "\<forall>c\<in>set (show_nat k). isdigit c"
proof (induction k rule: show_nat.induct)
  case (1 k)
  show ?case
  proof (cases "k < 10")
    case True
    then show ?thesis by (subst show_nat.simps) (simp add: isdigit_digit_char)
  next
    case False
    then show ?thesis using "1.IH" by (subst show_nat.simps) (simp add: isdigit_digit_char)
  qed
qed

lemma show_nat_nonempty: "show_nat k \<noteq> []"
  by (subst show_nat.simps) simp

lemma decimal_value_snoc:
  "decimal_value (ds @ [c]) = 10 * decimal_value ds + digit_value c"
  by (simp add: decimal_value_def)

lemma decimal_value_show_nat: "decimal_value (show_nat k) = int k"
proof (induction k rule: show_nat.induct)
  case (1 k)
  show ?case
  proof (cases "k < 10")
    case True
    then show ?thesis
      by (subst show_nat.simps) (simp add: decimal_value_def digit_value_digit_char)
  next
    case False
    have "decimal_value (show_nat k) = 10 * int (k div 10) + int (k mod 10)"
      using False "1.IH" by (subst show_nat.simps) (simp add: decimal_value_snoc digit_value_digit_char)
    then show ?thesis by (simp add: zdiv_int zmod_int)
  qed
qed

lemma takeWhile_digits:
  assumes "\<forall>c\<in>set ds. isdigit c" and "rest = [] \<or> \<not> isdigit (hd rest)"
  shows "takeWhile isdigit (ds @ rest) = ds" and "dropWhile isdigit (ds @ rest) = rest"
proof -
  have t: "takeWhile isdigit rest = []" and d: "dropWhile isdigit rest = rest"
    using assms(2) by (cases rest; simp)+
  show "takeWhile isdigit (ds @ rest) = ds"
    using assms(1) t by (simp add: takeWhile_append2)
  show "dropWhile isdigit (ds @ rest) = rest"
    using assms(1) d by (simp add: dropWhile_append2)
qed

lemma show_long_cases:
  "(v < 0 \<and> show_long v = CHR ''-'' # show_nat (nat (- v)))
   \<or> (0 \<le> v \<and> show_long v = show_nat (nat v))"
  by (simp add: show_long_def)

lemma extract_long_show_long:
  assumes "LONG_MIN \<le> v" and "v \<le> LONG_MAX"
    and "\<forall>c\<in>set ws. isspace c"
    and "rest = [] \<or> \<not> isdigit (hd rest)"
  shows "extract_long \<lparr>buf = ws @ show_long v @ rest, good = True\<rparr> var =
           (\<lparr>buf = rest, good = (rest \<noteq> [])\<rparr>, Some v)"
proof -
  have skip: "dropWhile isspace (ws @ show_long v @ rest) = dropWhile isspace (show_long v @ rest)"
    using assms(3) by (simp add: dropWhile_append2)
  show ?thesis
  proof (cases "v < 0")
    case True
    let ?ds = "show_nat (nat (- v))"
    have sl: "show_long v = CHR ''-'' # ?ds" using True by (simp add: show_long_def)
    have s: "dropWhile isspace (ws @ show_long v @ rest) = CHR ''-'' # ?ds @ rest"
      using assms(3) by (simp add: sl dropWhile_append2 isspace_def)
    have tk: "takeWhile isdigit (?ds @ rest) = ?ds" "dropWhile isdigit (?ds @ rest) = rest"
      using takeWhile_digits [OF show_nat_digits assms(4)] by auto
    have val: "- decimal_value ?ds = v" using True by (simp add: decimal_value_show_nat)
    show ?thesis
      using assms(1,2) val
      by (simp add: extract_long_def s tk show_nat_nonempty Let_def)
  next
    case False
    let ?ds = "show_nat (nat v)"
    have sl: "show_long v = ?ds" using False by (simp add: show_long_def)
    obtain c cs where ccs: "?ds = c # cs" using show_nat_nonempty [of "nat v"] by (cases ?ds) auto
    have dc: "isdigit c" using show_nat_digits [of "nat v"] ccs by simp
    have nsp: "\<not> isspace c" using dc by (rule isdigit_not_isspace)
    have nsign: "c \<noteq> CHR ''-''" "c \<noteq> CHR ''+''" using dc by (auto simp: isdigit_def)
    have s: "dropWhile isspace (ws @ show_long v @ rest) = ?ds @ rest"
      using assms(3) nsp by (simp add: sl dropWhile_append2 ccs)
    have hd: "hd (?ds @ rest) = c" by (simp add: ccs)
    have tk: "takeWhile isdigit (?ds @ rest) = ?ds" "dropWhile isdigit (?ds @ rest) = rest"
      using takeWhile_digits [OF show_nat_digits assms(4)] by auto
    have val: "decimal_value ?ds = v" using False by (simp add: decimal_value_show_nat)
    have ne: "?ds @ rest \<noteq> []" by (simp add: show_nat_nonempty)
    show ?thesis
      using assms(1,2) val nsign
      by (simp add: extract_long_def s hd tk ne show_nat_nonempty Let_def)
  qed
qed

lemma parse_point_record:
  assumes "LONG_MIN \<le> v" and "v \<le> LONG_MAX"
  shows "parse_point (drop 6 (point_record v)) = (Some v, Some v)"
proof -
  have d: "drop 6 (point_record v) = '' '' @ show_long v @ []"
    by (simp add: point_record_def)
  have sp: "\<forall>c\<in>set '' ''. isspace c" by (simp add: isspace_def)
  show ?thesis
    unfolding parse_point_def d
    by (simp only: extract_long_show_long [OF assms sp] simp_thms Let_def prod.case)
qed

lemma parse_range_record:
  assumes "LONG_MIN \<le> s" and "s \<le> LONG_MAX" and "LONG_MIN \<le> e" and "e \<le> LONG_MAX"
  shows "parse_range (drop 6 (range_record s e)) = (Some s, Some e)"
proof -
  have d: "drop 6 (range_record s e) = '' '' @ show_long s @ ('','' @ show_long e)"
    by (simp add: range_record_def)
  have sp: "\<forall>c\<in>set '' ''. isspace c" by (simp add: isspace_def)
  have nd: "'','' @ show_long e = [] \<or> \<not> isdigit (hd ('','' @ show_long e))"
    by (simp add: isdigit_def)
  have one: "extract_long \<lparr>buf = '' '' @ show_long s @ ('','' @ show_long e), good = True\<rparr> None =
           (\<lparr>buf = '','' @ show_long e, good = True\<rparr>, Some s)"
    using extract_long_show_long [OF assms(1,2) sp nd] by simp
  have two: "extract_char \<lparr>buf = '','' @ show_long e, good = True\<rparr> None =
           (\<lparr>buf = show_long e, good = True\<rparr>, Some CHR '','')"
    by (simp add: extract_char_def isspace_def)
  have three: "extract_long \<lparr>buf = show_long e, good = True\<rparr> None =
           (\<lparr>buf = [], good = False\<rparr>, Some e)"
    using extract_long_show_long [OF assms(3,4), of "[]" "[]"] by simp
  show ?thesis
    unfolding parse_range_def d by (simp only: one two three Let_def prod.case)
qed

text \<open>Lines written by the record functions.\<close>

lemma str_contains_hd: "str_contains (p # ps) s \<Longrightarrow> p \<in> set s"
proof (induction s)
  case Nil
  then show ?case by simp
next
  case (Cons c cs)
  then show ?case by (auto simp: take_Cons')
qed

lemma show_long_chars: "c \<in> set (show_long v) \<Longrightarrow> c = CHR ''-'' \<or> isdigit c"
  using show_nat_digits by (auto simp: show_long_def split: if_splits)

lemma point_record_no_selectivity: "\<not> str_contains ''selectivity'' (point_record v)"
proof
  assume "str_contains ''selectivity'' (point_record v)"
  then have "CHR ''s'' \<in> set (point_record v)" by (rule str_contains_hd)
  then have "CHR ''s'' \<in> set (show_long v)" by (simp add: point_record_def)
  then show False using show_long_chars [of "CHR ''s''" v] by (simp add: isdigit_def)
qed

lemma range_record_no_selectivity: "\<not> str_contains ''selectivity'' (range_record s e)"
proof
  assume "str_contains ''selectivity'' (range_record s e)"
  then have "CHR ''s'' \<in> set (range_record s e)" by (rule str_contains_hd)
  then have "CHR ''s'' \<in> set (show_long s) \<or> CHR ''s'' \<in> set (show_long e)"
    by (simp add: range_record_def)
  then show False
    using show_long_chars [of "CHR ''s''" s] show_long_chars [of "CHR ''s''" e]
    by (auto simp: isdigit_def)
qed

lemma process_point_record:
  assumes "LONG_MIN \<le> v" and "v \<le> LONG_MAX"
  shows "process_line index n st (point_record v) d =
           evaluate_query index n st d (Some v, Some v)"
proof -
  have a: "\<not> starts_with ''range:'' (point_record v)"
    by (simp add: starts_with_def point_record_def)
  have b: "starts_with ''point:'' (point_record v)"
    by (simp add: starts_with_def point_record_def)
  show ?thesis
    by (simp add: process_line_def point_record_no_selectivity a b parse_point_record [OF assms])
qed

lemma process_range_record:
  assumes "LONG_MIN \<le> s" and "s \<le> LONG_MAX" and "LONG_MIN \<le> e" and "e \<le> LONG_MAX"
  shows "process_line index n st (range_record s e) d =
           evaluate_query index n st d (Some s, Some e)"
proof -
  have a: "starts_with ''range:'' (range_record s e)"
    by (simp add: starts_with_def range_record_def)
  show ?thesis
    by (simp add: process_line_def range_record_no_selectivity a parse_range_record [OF assms])
qed

lemma record_texts:
  "point_record 20 = ''point: 20''" "range_record 20 20 = ''range: 20,20''"
  "range_record (-12) 340 = ''range: -12,340''"
  by code_simp+

text \<open>Single lines.\<close>

lemma evaluate_query_empty_range:
  "e < s \<Longrightarrow>
   evaluate_query index n st d (Some s, Some e) =
     Inr ([], [], st\<lparr>searchtime := searchtime st + 1, timecount := timecount st + d\<rparr>)"
  by (simp add: evaluate_query_def range_loop_empty ones_count_new)

lemma average_drops:
  fixes b c :: int
  assumes "0 < c"
  shows "0 < b \<Longrightarrow> (of_int b / of_int (c + 1) :: rat) < of_int b / of_int c"
    and "0 \<le> b \<Longrightarrow> (of_int b / of_int (c + 1) :: rat) \<le> of_int b / of_int c"
  using assms by (simp_all add: frac_less2 frac_le)

lemma evaluate_query_counts:
  "evaluate_query index n st d bounds = Inr (out, calls, st') \<Longrightarrow>
   out = [] \<and> searchtime st' = searchtime st + 1 \<and> timecount st' = timecount st + d
   \<and> blkcount st \<le> blkcount st'"
  by (auto simp: evaluate_query_def split: prod.splits option.splits sum.splits)

lemma process_line_query_cases:
  assumes "\<not> str_contains ''selectivity'' line"
  shows "starts_with ''range:'' line \<Longrightarrow>
           process_line index n st line d =
             evaluate_query index n st d (parse_range (drop 6 line))"
    and "\<not> starts_with ''range:'' line \<Longrightarrow> starts_with ''point:'' line \<Longrightarrow>
           process_line index n st line d =
             evaluate_query index n st d (parse_point (drop 6 line))"
    and "\<not> starts_with ''range:'' line \<Longrightarrow> \<not> starts_with ''point:'' line \<Longrightarrow>
           process_line index n st line d = Inr ([], [], st)"
  using assms by (simp_all add: process_line_def)

lemma header_result_shape:
  assumes "str_contains ''selectivity'' line"
    and "0 \<le> searchtime st"
  shows "\<exists>out st'. process_line index n st line d = Inr (out, [], st')
           \<and> searchtime st' \<le> searchtime st \<and> searchtime st' = 0"
  using assms by (simp add: process_header flush_def)

text \<open>A range that ends at the largest value.\<close>

lemma set_all_results:
  "(\<exists>t. set_all bm ps = Inr t \<and> length t = length bm) \<or> set_all bm ps = Inl BitmapIndexOutOfRange"
proof (cases "\<forall>p\<in>set ps. p < length bm")
  case True
  then show ?thesis using set_all_in_range [of ps bm] by blast
next
  case False
  then show ?thesis by (simp add: set_all_out_of_range)
qed

lemma range_loop_end_LONG_MAX:
  "v \<le> LONG_MAX \<Longrightarrow>
   range_loop index n v LONG_MAX acc = Inl SignedOverflow
   \<or> range_loop index n v LONG_MAX acc = Inl BitmapIndexOutOfRange"
proof (induction index n v "LONG_MAX" acc rule: range_loop.induct)
  case (1 index n v acc)
  consider (ok) t where "set_all acc (Bitmap64_TrueBitIndices (index v n)) = Inr t"
    | (bad) "set_all acc (Bitmap64_TrueBitIndices (index v n)) = Inl BitmapIndexOutOfRange"
    using set_all_results by blast
  then show ?case
  proof cases
    case bad
    then show ?thesis using "1.prems" by (subst (1 2) range_loop.simps) simp
  next
    case ok
    show ?thesis
    proof (cases "v = LONG_MAX")
      case True
      then show ?thesis using ok by (subst (1 2) range_loop.simps) simp
    next
      case False
      have le: "v + 1 \<le> LONG_MAX" using False "1.prems" by simp
      have "range_loop index n (v + 1) LONG_MAX t = Inl SignedOverflow
            \<or> range_loop index n (v + 1) LONG_MAX t = Inl BitmapIndexOutOfRange"
        using "1.hyps" [OF "1.prems" ok False le] .
      then show ?thesis using "1.prems" ok False by (subst (1 2) range_loop.simps) auto
    qed
  qed
qed

text \<open>Ranges below the largest value, and lines without a number.\<close>

lemma range_query_accumulates_union:
  assumes "e < LONG_MAX"
    and "\<forall>u. s \<le> u \<and> u \<le> e \<longrightarrow> length (index u n) = n"
  shows "\<exists>r. range_loop index n s e (Bitmap64_new n False) = Inr (r, [s..e])
           \<and> length r = n
           \<and> set (Bitmap64_TrueBitIndices r) =
               (\<Union>u\<in>{s..e}. set (Bitmap64_TrueBitIndices (index u n)))
           \<and> evaluate_query index n st d (Some s, Some e) =
               Inr ([], [s..e],
                    st\<lparr>searchtime := searchtime st + 1,
                       blkcount := blkcount st + int (Bitmap64_GetOnesCount r),
                       timecount := timecount st + d\<rparr>)"
proof -
  have len: "length (Bitmap64_new n False) = n" by (simp add: Bitmap64_new_def)
  obtain r where r: "range_loop index n s e (Bitmap64_new n False) = Inr (r, [s..e])"
    "length r = n"
    "set (Bitmap64_TrueBitIndices r) =
       set (Bitmap64_TrueBitIndices (Bitmap64_new n False)) \<union>
       (\<Union>u\<in>{s..e}. set (Bitmap64_TrueBitIndices (index u n)))"
    using range_loop_union [where index = index and n = n, OF assms len] by blast
  show ?thesis
    using r by (simp add: true_bit_indices_new evaluate_query_def)
qed

lemma range_query_popcount_monotone:
  assumes "e1 \<le> e2" and "e2 < LONG_MAX"
    and "\<forall>u. s \<le> u \<and> u \<le> e2 \<longrightarrow> length (index u n) = n"
  shows "\<exists>r1 r2. range_loop index n s e1 (Bitmap64_new n False) = Inr (r1, [s..e1])
           \<and> range_loop index n s e2 (Bitmap64_new n False) = Inr (r2, [s..e2])
           \<and> set (Bitmap64_TrueBitIndices r1) \<subseteq> set (Bitmap64_TrueBitIndices r2)
           \<and> Bitmap64_GetOnesCount r1 \<le> Bitmap64_GetOnesCount r2"
proof -
  have b1: "e1 < LONG_MAX" using assms(1,2) by simp
  have c1: "\<forall>u. s \<le> u \<and> u \<le> e1 \<longrightarrow> length (index u n) = n" using assms(1,3) by simp
  obtain r1 where r1: "range_loop index n s e1 (Bitmap64_new n False) = Inr (r1, [s..e1])"
    "set (Bitmap64_TrueBitIndices r1) =
       (\<Union>u\<in>{s..e1}. set (Bitmap64_TrueBitIndices (index u n)))"
    using range_query_accumulates_union [where index = index and n = n, OF b1 c1] by blast
  obtain r2 where r2: "range_loop index n s e2 (Bitmap64_new n False) = Inr (r2, [s..e2])"
    "set (Bitmap64_TrueBitIndices r2) =
       (\<Union>u\<in>{s..e2}. set (Bitmap64_TrueBitIndices (index u n)))"
    using range_query_accumulates_union [where index = index and n = n, OF assms(2,3)] by blast
  have sub: "set (Bitmap64_TrueBitIndices r1) \<subseteq> set (Bitmap64_TrueBitIndices r2)"
    unfolding r1(2) r2(2) using assms(1) by (intro UN_mono) auto
  have "card (set (Bitmap64_TrueBitIndices r1)) \<le> card (set (Bitmap64_TrueBitIndices r2))"
    using sub by (simp add: card_mono)
  then show ?thesis
    using r1(1) r2(1) sub by (simp add: ones_count_card)
qed

lemma starts_with_point_not_range:
  "starts_with ''point:'' line \<Longrightarrow> \<not> starts_with ''range:'' line"
  by (cases line) (auto simp: starts_with_def)

lemma extract_long_no_number:
  assumes "\<forall>x\<in>set ws. isspace x" and "\<not> isspace c" and "\<not> isdigit c"
    and "c \<noteq> CHR ''-''" and "c \<noteq> CHR ''+''"
  shows "extract_long \<lparr>buf = ws @ c # rest, good = True\<rparr> var =
           (\<lparr>buf = c # rest, good = False\<rparr>, Some 0)"
proof -
  have s: "dropWhile isspace (ws @ c # rest) = c # rest"
    using assms(1,2) by (simp add: dropWhile_append2)
  show ?thesis
    using assms(3,4,5) by (simp add: extract_long_def s Let_def)
qed

lemma evaluate_query_single:
  assumes "v < LONG_MAX" and "length (index v n) = n"
  shows "evaluate_query index n st d (Some v, Some v) =
           Inr ([], [v],
                st\<lparr>searchtime := searchtime st + 1,
                   blkcount := blkcount st + int (Bitmap64_GetOnesCount (index v n)),
                   timecount := timecount st + d\<rparr>)"
proof -
  have c: "\<forall>u. v \<le> u \<and> u \<le> v \<longrightarrow> length (index u n) = n" using assms(2) by auto
  obtain r where r: "set (Bitmap64_TrueBitIndices r) =
               (\<Union>u\<in>{v..v}. set (Bitmap64_TrueBitIndices (index u n)))"
    "evaluate_query index n st d (Some v, Some v) =
               Inr ([], [v..v],
                    st\<lparr>searchtime := searchtime st + 1,
                       blkcount := blkcount st + int (Bitmap64_GetOnesCount r),
                       timecount := timecount st + d\<rparr>)"
    using range_query_accumulates_union [where index = index and n = n and st = st and d = d, OF assms(1) c] by blast
  have "Bitmap64_GetOnesCount r = Bitmap64_GetOnesCount (index v n)"
    using r(1) by (simp add: ones_count_card)
  then show ?thesis using r(2) by simp
qed

lemmas evaluator_defs =
  process_line_def starts_with_def parse_range_def parse_point_def extract_long_def
  extract_char_def isspace_def isdigit_def evaluate_query_def range_loop.simps
  Bitmap64_new_def Bitmap64_TrueBitIndices_def initial_state_def Bitmap64_GetOnesCount_def
  LONG_MAX_def LONG_MIN_def decimal_value_def digit_value_def Bitmap64_Set_def flush_def
  evaluate_workload_def

subsection \<open>The report of a group\<close>

text \<open>
  Claim C1. Whenever a group is flushed (its query counter is not zero), the reported
  average block count is the accumulated block count divided by the query counter, and the
  reported average search time is the accumulated nanoseconds divided by \<open>10^9\<close> times the
  query counter; the average block count times the query counter is the accumulated block
  count. This holds at both places where the program flushes: at a header line (where the
  header is echoed after the report) and after the last line. The quotients are exact
  rationals; the rounding of \<^verbatim>\<open>double\<close> is not modelled.
\<close>

theorem flush_reports_group_averages:
  assumes "searchtime st \<noteq> 0"
  shows "flush st =
           ([AvgBlk (of_int (blkcount st) / of_int (searchtime st)),
             AvgTime (of_int (timecount st) / (1000000000 * of_int (searchtime st)))],
            st\<lparr>blkcount := 0, timecount := 0, searchtime := 0\<rparr>)
         \<and> (of_int (blkcount st) / of_int (searchtime st) :: rat) * of_int (searchtime st)
             = of_int (blkcount st)
         \<and> (str_contains ''selectivity'' line \<longrightarrow>
              process_line index n st line d =
                Inr ([AvgBlk (of_int (blkcount st) / of_int (searchtime st)),
                      AvgTime (of_int (timecount st) / (1000000000 * of_int (searchtime st))),
                      Echo line], [],
                     st\<lparr>blkcount := 0, timecount := 0, searchtime := 0\<rparr>))
         \<and> (run_lines index n initial_state w = Inr (out, calls, st) \<longrightarrow>
              evaluate_workload index n w =
                Inr (out @ [AvgBlk (of_int (blkcount st) / of_int (searchtime st)),
                            AvgTime (of_int (timecount st) / (1000000000 * of_int (searchtime st)))],
                     calls, st\<lparr>blkcount := 0, timecount := 0, searchtime := 0\<rparr>))"
proof -
  have f: "flush st =
           ([AvgBlk (of_int (blkcount st) / of_int (searchtime st)),
             AvgTime (of_int (timecount st) / (1000000000 * of_int (searchtime st)))],
            st\<lparr>blkcount := 0, timecount := 0, searchtime := 0\<rparr>)"
    using assms by (simp add: flush_def)
  have p: "(of_int (blkcount st) / of_int (searchtime st) :: rat) * of_int (searchtime st)
             = of_int (blkcount st)"
    using assms by simp
  show ?thesis
    using f p by (simp add: process_header evaluate_workload_def)
qed

theorem flush_reports_group_averages_witness:
  "searchtime \<lparr>blkcount = 3, timecount = 9, searchtime = 2\<rparr> \<noteq> 0
   \<and> flush \<lparr>blkcount = 3, timecount = 9, searchtime = 2\<rparr> =
       ([AvgBlk (3 / 2), AvgTime (9 / 2000000000)], initial_state)
   \<and> (3 / 2 :: rat) * 2 = 3
   \<and> str_contains ''selectivity'' ''selectivity=high''
   \<and> process_line (\<lambda>v n. replicate n (v = 20)) 3
        \<lparr>blkcount = 3, timecount = 9, searchtime = 2\<rparr> ''selectivity=high'' 0 =
       Inr ([AvgBlk (3 / 2), AvgTime (9 / 2000000000), Echo ''selectivity=high''], [],
            initial_state)
   \<and> run_lines (\<lambda>v n. replicate n (v = 20)) 3 initial_state
        [(''point: 20'', 5), (''point: 7'', 4)] =
       Inr ([], [20, 7], \<lparr>blkcount = 3, timecount = 9, searchtime = 2\<rparr>)
   \<and> evaluate_workload (\<lambda>v n. replicate n (v = 20)) 3
        [(''point: 20'', 5), (''point: 7'', 4)] =
       Inr ([AvgBlk (3 / 2), AvgTime (9 / 2000000000)], [20, 7], initial_state)"
proof -
  have h: "searchtime \<lparr>blkcount = 3, timecount = 9, searchtime = 2\<rparr> \<noteq> 0"
    by simp
  have c: "str_contains ''selectivity'' ''selectivity=high''"
    by simp
  have r: "run_lines (\<lambda>v n. replicate n (v = 20)) 3 initial_state
             [(''point: 20'', 5), (''point: 7'', 4)] =
           Inr ([], [20, 7], \<lparr>blkcount = 3, timecount = 9, searchtime = 2\<rparr>)"
    by (simp add: evaluator_defs upt_rec eval_nat_numeral)
  show ?thesis
    using h c r
      flush_reports_group_averages [OF h, of "''selectivity=high''"
        "\<lambda>v n. replicate n (v = 20)" 3 0 "[(''point: 20'', 5), (''point: 7'', 4)]" "[]" "[20, 7]"]
    by (simp add: initial_state_def)
qed

subsection \<open>Groups without queries\<close>

text \<open>
  Claim C4. Flushing does nothing when the query counter is zero: no report is printed
  and the state is unchanged, at a header line (only the header is echoed) as well as after
  the last line. The only divisions of the evaluator are in the report, so none is computed
  with a zero counter. After any header line the counter is zero; hence a header that is
  directly followed by another header, or by the end of the file, produces no report for
  its group.
\<close>

theorem empty_group_prints_no_report:
  "(searchtime st = 0 \<longrightarrow> flush st = ([], st))
   \<and> (searchtime st = 0 \<longrightarrow> str_contains ''selectivity'' line \<longrightarrow>
        process_line index n st line d = Inr ([Echo line], [], st))
   \<and> (searchtime st = 0 \<longrightarrow> run_lines index n initial_state w = Inr (out, calls, st) \<longrightarrow>
        evaluate_workload index n w = Inr (out, calls, st))
   \<and> (str_contains ''selectivity'' h1 \<longrightarrow> str_contains ''selectivity'' h2 \<longrightarrow>
        (\<exists>out1 st1.
           process_line index n st0 h1 d1 = Inr (out1 @ [Echo h1], [], st1)
           \<and> searchtime st1 = 0
           \<and> process_line index n st1 h2 d2 = Inr ([Echo h2], [], st1)
           \<and> run_lines index n st0 [(h1, d1), (h2, d2)] =
               Inr (out1 @ [Echo h1, Echo h2], [], st1)
           \<and> flush st1 = ([], st1)))"
proof -
  have a: "searchtime st = 0 \<longrightarrow> flush st = ([], st)"
    by (simp add: flush_idle)
  have b: "searchtime st = 0 \<longrightarrow> str_contains ''selectivity'' line \<longrightarrow>
        process_line index n st line d = Inr ([Echo line], [], st)"
    by (simp add: process_header flush_idle)
  have c: "searchtime st = 0 \<longrightarrow> run_lines index n initial_state w = Inr (out, calls, st) \<longrightarrow>
        evaluate_workload index n w = Inr (out, calls, st)"
    by (simp add: evaluate_workload_def flush_idle)
  have e: "str_contains ''selectivity'' h1 \<longrightarrow> str_contains ''selectivity'' h2 \<longrightarrow>
        (\<exists>out1 st1.
           process_line index n st0 h1 d1 = Inr (out1 @ [Echo h1], [], st1)
           \<and> searchtime st1 = 0
           \<and> process_line index n st1 h2 d2 = Inr ([Echo h2], [], st1)
           \<and> run_lines index n st0 [(h1, d1), (h2, d2)] =
               Inr (out1 @ [Echo h1, Echo h2], [], st1)
           \<and> flush st1 = ([], st1))"
  proof (intro impI)
    assume h1: "str_contains ''selectivity'' h1" and h2: "str_contains ''selectivity'' h2"
    let ?st1 = "snd (flush st0)"
    have z: "searchtime ?st1 = 0" by (rule searchtime_flush)
    have p1: "process_line index n st0 h1 d1 = Inr (fst (flush st0) @ [Echo h1], [], ?st1)"
      using h1 by (rule process_header)
    have p2: "process_line index n ?st1 h2 d2 = Inr ([Echo h2], [], ?st1)"
      using h2 z by (simp add: process_header flush_idle)
    have r: "run_lines index n st0 [(h1, d1), (h2, d2)] =
               Inr (fst (flush st0) @ [Echo h1, Echo h2], [], ?st1)"
      by (simp add: p1 p2)
    show "\<exists>out1 st1.
           process_line index n st0 h1 d1 = Inr (out1 @ [Echo h1], [], st1)
           \<and> searchtime st1 = 0
           \<and> process_line index n st1 h2 d2 = Inr ([Echo h2], [], st1)
           \<and> run_lines index n st0 [(h1, d1), (h2, d2)] =
               Inr (out1 @ [Echo h1, Echo h2], [], st1)
           \<and> flush st1 = ([], st1)"
      using p1 p2 r z flush_idle [OF z] by blast
  qed
  show ?thesis
    using a b c e by blast
qed

theorem empty_group_prints_no_report_witness:
  "searchtime initial_state = 0
   \<and> flush initial_state = ([], initial_state)
   \<and> str_contains ''selectivity'' ''selectivity=low''
   \<and> str_contains ''selectivity'' ''selectivity=high''
   \<and> process_line (\<lambda>v n. replicate n (v = 20)) 3 initial_state ''selectivity=low'' 0 =
       Inr ([Echo ''selectivity=low''], [], initial_state)
   \<and> run_lines (\<lambda>v n. replicate n (v = 20)) 3 initial_state
        [(''selectivity=low'', 0), (''selectivity=high'', 0)] =
       Inr ([Echo ''selectivity=low'', Echo ''selectivity=high''], [], initial_state)
   \<and> evaluate_workload (\<lambda>v n. replicate n (v = 20)) 3
        [(''selectivity=low'', 0), (''selectivity=high'', 0)] =
       Inr ([Echo ''selectivity=low'', Echo ''selectivity=high''], [], initial_state)"
proof -
  have z: "searchtime initial_state = 0"
    by (simp add: initial_state_def)
  have lo: "str_contains ''selectivity'' ''selectivity=low''"
    by simp
  have hi: "str_contains ''selectivity'' ''selectivity=high''"
    by simp
  have r: "run_lines (\<lambda>v n. replicate n (v = 20)) 3 initial_state
             [(''selectivity=low'', 0), (''selectivity=high'', 0)] =
           Inr ([Echo ''selectivity=low'', Echo ''selectivity=high''], [], initial_state)"
    by (simp add: evaluator_defs)
  show ?thesis
    using z lo hi r
      empty_group_prints_no_report [of initial_state "''selectivity=low''"
        "\<lambda>v n. replicate n (v = 20)" 3 0
        "[(''selectivity=low'', 0), (''selectivity=high'', 0)]"
        "[Echo ''selectivity=low'', Echo ''selectivity=high'']" "[]"
        "''selectivity=low''" "''selectivity=high''" initial_state 0 0]
    by simp
qed

subsection \<open>Point queries\<close>

text \<open>
  Claim C3. For every \<^verbatim>\<open>long\<close> value \<open>v\<close>, the line \<^verbatim>\<open>point: v\<close> and the line \<^verbatim>\<open>range: v,v\<close>
  are both read as start \<open>v\<close> and end \<open>v\<close>, and processing either line in the same state
  gives the same result: the same evaluation of the range from \<open>v\<close> to \<open>v\<close> (hence the same
  accumulated bitmap and the same block count added) and the same increment of the query
  counter. At \<open>v = LONG_MAX\<close> both lines end in the same overflow of the loop variable.
\<close>

theorem point_is_range_of_length_one:
  assumes "LONG_MIN \<le> v" and "v \<le> LONG_MAX"
  shows "parse_point (drop 6 (point_record v)) = (Some v, Some v)
         \<and> parse_range (drop 6 (range_record v v)) = (Some v, Some v)
         \<and> process_line index n st (point_record v) d =
             evaluate_query index n st d (Some v, Some v)
         \<and> process_line index n st (range_record v v) d =
             process_line index n st (point_record v) d"
  using assms
  by (simp add: parse_point_record parse_range_record process_point_record process_range_record)

theorem point_is_range_of_length_one_witness:
  "LONG_MIN \<le> 20 \<and> 20 \<le> LONG_MAX
   \<and> point_record 20 = ''point: 20'' \<and> range_record 20 20 = ''range: 20,20''
   \<and> process_line (\<lambda>v n. replicate n (v = 20)) 3 initial_state ''range: 20,20'' 5 =
       process_line (\<lambda>v n. replicate n (v = 20)) 3 initial_state ''point: 20'' 5
   \<and> process_line (\<lambda>v n. replicate n (v = 20)) 3 initial_state ''point: 20'' 5 =
       Inr ([], [20], \<lparr>blkcount = 3, timecount = 5, searchtime = 1\<rparr>)"
proof -
  have lo: "LONG_MIN \<le> 20" and hi: "20 \<le> LONG_MAX"
    by (simp_all add: LONG_MIN_def LONG_MAX_def)
  have t: "point_record 20 = ''point: 20''" "range_record 20 20 = ''range: 20,20''"
    by code_simp+
  have q: "evaluate_query (\<lambda>v n. replicate n (v = 20)) 3 initial_state 5 (Some 20, Some 20) =
             Inr ([], [20], \<lparr>blkcount = 3, timecount = 5, searchtime = 1\<rparr>)"
    by (simp add: evaluator_defs upt_rec eval_nat_numeral)
  show ?thesis
    using lo hi q
      point_is_range_of_length_one [OF lo hi, of "\<lambda>v n. replicate n (v = 20)" 3 initial_state 5]
    by (simp add: t)
qed

subsection \<open>Ranges whose start is above their end\<close>

text \<open>
  Claim C8, as amended. A range line read with a start bound above its end bound makes no
  index lookup: the loop body never runs, the accumulator stays all false and its
  population count is 0, so the block count is unchanged, while the query counter grows by
  one (and the measured time is added). A flush after the line reports the block count
  divided by the counter plus one. Compared with the report a flush would have printed
  before the line, the average block count is strictly lower when the group already has
  queries and a positive block count; it stays 0 when the group's block count is 0; and when
  the line is the first query of its group, a flush before it prints nothing and a flush
  after it prints a report. The counterexample is a group of two such lines: the reported
  average block count is 0 after the first and 0 after the second.
\<close>

theorem reversed_range_report:
  assumes "\<not> str_contains ''selectivity'' line"
    and "starts_with ''range:'' line"
    and "parse_range (drop 6 line) = (Some s, Some e)"
    and "e < s"
  shows "range_loop index n s e (Bitmap64_new n False) = Inr (Bitmap64_new n False, [])
         \<and> Bitmap64_TrueBitIndices (Bitmap64_new n False) = []
         \<and> Bitmap64_GetOnesCount (Bitmap64_new n False) = 0
         \<and> process_line index n st line d =
             Inr ([], [], st\<lparr>searchtime := searchtime st + 1, timecount := timecount st + d\<rparr>)
         \<and> (0 \<le> searchtime st \<longrightarrow>
              fst (flush (st\<lparr>searchtime := searchtime st + 1, timecount := timecount st + d\<rparr>)) =
                [AvgBlk (of_int (blkcount st) / of_int (searchtime st + 1)),
                 AvgTime (of_int (timecount st + d)
                            / (1000000000 * of_int (searchtime st + 1)))])
         \<and> (searchtime st = 0 \<longrightarrow> fst (flush st) = [])
         \<and> (0 < searchtime st \<longrightarrow>
              fst (flush st) =
                [AvgBlk (of_int (blkcount st) / of_int (searchtime st)),
                 AvgTime (of_int (timecount st) / (1000000000 * of_int (searchtime st)))]
              \<and> (0 < blkcount st \<longrightarrow>
                   (of_int (blkcount st) / of_int (searchtime st + 1) :: rat)
                     < of_int (blkcount st) / of_int (searchtime st))
              \<and> (blkcount st = 0 \<longrightarrow>
                   (of_int (blkcount st) / of_int (searchtime st + 1) :: rat) = 0
                   \<and> (of_int (blkcount st) / of_int (searchtime st) :: rat) = 0))"
proof -
  have l: "range_loop index n s e (Bitmap64_new n False) = Inr (Bitmap64_new n False, [])"
    using assms(4) by (rule range_loop_empty)
  have p: "process_line index n st line d =
             Inr ([], [], st\<lparr>searchtime := searchtime st + 1, timecount := timecount st + d\<rparr>)"
    using assms by (simp add: process_line_def evaluate_query_empty_range)
  have after: "0 \<le> searchtime st \<longrightarrow>
              fst (flush (st\<lparr>searchtime := searchtime st + 1, timecount := timecount st + d\<rparr>)) =
                [AvgBlk (of_int (blkcount st) / of_int (searchtime st + 1)),
                 AvgTime (of_int (timecount st + d)
                            / (1000000000 * of_int (searchtime st + 1)))]"
    by (simp add: flush_def)
  have first: "searchtime st = 0 \<longrightarrow> fst (flush st) = []"
    by (simp add: flush_def)
  have before: "0 < searchtime st \<longrightarrow>
              fst (flush st) =
                [AvgBlk (of_int (blkcount st) / of_int (searchtime st)),
                 AvgTime (of_int (timecount st) / (1000000000 * of_int (searchtime st)))]
              \<and> (0 < blkcount st \<longrightarrow>
                   (of_int (blkcount st) / of_int (searchtime st + 1) :: rat)
                     < of_int (blkcount st) / of_int (searchtime st))
              \<and> (blkcount st = 0 \<longrightarrow>
                   (of_int (blkcount st) / of_int (searchtime st + 1) :: rat) = 0
                   \<and> (of_int (blkcount st) / of_int (searchtime st) :: rat) = 0)"
    using average_drops(1) [of "searchtime st" "blkcount st"] by (simp add: flush_def)
  show ?thesis
    by (intro conjI l true_bit_indices_new ones_count_new p after first before)
qed

theorem reversed_range_zero_average_counterexample:
  "\<not> str_contains ''selectivity'' ''range: 30,10''
   \<and> starts_with ''range:'' ''range: 30,10''
   \<and> parse_range (drop 6 ''range: 30,10'') = (Some 30, Some 10)
   \<and> (10 :: int) < 30
   \<and> process_line all_stripes 3 initial_state ''range: 30,10'' 4 =
       Inr ([], [], \<lparr>blkcount = 0, timecount = 4, searchtime = 1\<rparr>)
   \<and> process_line all_stripes 3 \<lparr>blkcount = 0, timecount = 4, searchtime = 1\<rparr> ''range: 30,10'' 5 =
       Inr ([], [], \<lparr>blkcount = 0, timecount = 9, searchtime = 2\<rparr>)
   \<and> fst (flush initial_state) = []
   \<and> fst (flush \<lparr>blkcount = 0, timecount = 4, searchtime = 1\<rparr>) =
       [AvgBlk 0, AvgTime (4 / 1000000000)]
   \<and> fst (flush \<lparr>blkcount = 0, timecount = 9, searchtime = 2\<rparr>) =
       [AvgBlk 0, AvgTime (9 / 2000000000)]
   \<and> evaluate_workload all_stripes 3 [(''selectivity=low'', 0), (''range: 30,10'', 4)] =
       Inr ([Echo ''selectivity=low'', AvgBlk 0, AvgTime (4 / 1000000000)], [], initial_state)
   \<and> evaluate_workload all_stripes 3
        [(''selectivity=low'', 0), (''range: 30,10'', 4), (''range: 30,10'', 5)] =
       Inr ([Echo ''selectivity=low'', AvgBlk 0, AvgTime (9 / 2000000000)], [], initial_state)"
  by (simp add: evaluator_defs all_stripes_def)

theorem reversed_range_report_witness:
  "\<not> str_contains ''selectivity'' ''range: 30,10''
   \<and> starts_with ''range:'' ''range: 30,10''
   \<and> parse_range (drop 6 ''range: 30,10'') = (Some 30, Some 10)
   \<and> (10 :: int) < 30
   \<and> process_line all_stripes 3 \<lparr>blkcount = 3, timecount = 5, searchtime = 1\<rparr>
        ''range: 30,10'' 4 =
       Inr ([], [], \<lparr>blkcount = 3, timecount = 9, searchtime = 2\<rparr>)
   \<and> fst (flush \<lparr>blkcount = 3, timecount = 5, searchtime = 1\<rparr>) =
       [AvgBlk 3, AvgTime (5 / 1000000000)]
   \<and> fst (flush \<lparr>blkcount = 3, timecount = 9, searchtime = 2\<rparr>) =
       [AvgBlk (3 / 2), AvgTime (9 / 2000000000)]
   \<and> (3 / 2 :: rat) < 3
   \<and> process_line all_stripes 3 initial_state ''range: 30,10'' 4 =
       Inr ([], [], \<lparr>blkcount = 0, timecount = 4, searchtime = 1\<rparr>)
   \<and> fst (flush initial_state) = []
   \<and> fst (flush \<lparr>blkcount = 0, timecount = 4, searchtime = 1\<rparr>) =
       [AvgBlk 0, AvgTime (4 / 1000000000)]"
proof -
  let ?st = "\<lparr>blkcount = 3, timecount = 5, searchtime = 1\<rparr>"
  have a: "\<not> str_contains ''selectivity'' ''range: 30,10''"
    by simp
  have b: "starts_with ''range:'' ''range: 30,10''"
    by (simp add: starts_with_def)
  have c: "parse_range (drop 6 ''range: 30,10'') = (Some 30, Some 10)"
    by (simp add: evaluator_defs)
  have d: "(10 :: int) < 30"
    by simp
  note T = reversed_range_report [OF a b c d, of all_stripes 3 ?st 4]
  note U = reversed_range_report [OF a b c d, of all_stripes 3 initial_state 4]
  have nn: "0 \<le> searchtime ?st" and pos: "0 < searchtime ?st" and blk: "0 < blkcount ?st"
    by simp_all
  have z: "searchtime initial_state = 0" and zn: "0 \<le> searchtime initial_state"
    by (simp_all add: initial_state_def)
  have t1: "process_line all_stripes 3 ?st ''range: 30,10'' 4 =
       Inr ([], [], \<lparr>blkcount = 3, timecount = 9, searchtime = 2\<rparr>)"
    using T [THEN conjunct2, THEN conjunct2, THEN conjunct2, THEN conjunct1] by simp
  have t2: "fst (flush \<lparr>blkcount = 3, timecount = 9, searchtime = 2\<rparr>) =
       [AvgBlk (3 / 2), AvgTime (9 / 2000000000)]"
    using T [THEN conjunct2, THEN conjunct2, THEN conjunct2, THEN conjunct2, THEN conjunct1,
        THEN mp, OF nn] by simp
  have t3: "fst (flush ?st) = [AvgBlk 3, AvgTime (5 / 1000000000)] \<and> (3 / 2 :: rat) < 3"
    using T [THEN conjunct2, THEN conjunct2, THEN conjunct2, THEN conjunct2, THEN conjunct2,
        THEN conjunct2, THEN mp, OF pos] by simp
  have u1: "process_line all_stripes 3 initial_state ''range: 30,10'' 4 =
       Inr ([], [], \<lparr>blkcount = 0, timecount = 4, searchtime = 1\<rparr>)"
    using U [THEN conjunct2, THEN conjunct2, THEN conjunct2, THEN conjunct1]
    by (simp add: initial_state_def)
  have u2: "fst (flush \<lparr>blkcount = 0, timecount = 4, searchtime = 1\<rparr>) =
       [AvgBlk 0, AvgTime (4 / 1000000000)]"
    using U [THEN conjunct2, THEN conjunct2, THEN conjunct2, THEN conjunct2, THEN conjunct1,
        THEN mp, OF zn] by (simp add: initial_state_def)
  have u3: "fst (flush initial_state) = []"
    using U [THEN conjunct2, THEN conjunct2, THEN conjunct2, THEN conjunct2, THEN conjunct2,
        THEN conjunct1, THEN mp, OF z] .
  show ?thesis
    using a b c d t1 t2 t3 u1 u2 u3 by (intro conjI) simp_all
qed

subsection \<open>Classification of lines\<close>

text \<open>
  Claim C9. A line that contains \<^verbatim>\<open>selectivity\<close> anywhere is processed as a header (flush,
  then echo), whatever it begins with. A line without \<^verbatim>\<open>selectivity\<close> is a range query if it
  begins with \<^verbatim>\<open>range:\<close>, else a point query if it begins with \<^verbatim>\<open>point:\<close>, and else it
  leaves the state unchanged and prints nothing. Conversely, if processing a line fails,
  makes a lookup or increases the query counter, then the line does not contain
  \<^verbatim>\<open>selectivity\<close> and begins with \<^verbatim>\<open>range:\<close> or \<^verbatim>\<open>point:\<close>.
\<close>

theorem header_lines_take_priority:
  "(str_contains ''selectivity'' line \<longrightarrow>
      process_line index n st line d =
        Inr (fst (flush st) @ [Echo line], [], snd (flush st)))
   \<and> (\<not> str_contains ''selectivity'' line \<longrightarrow> starts_with ''range:'' line \<longrightarrow>
        process_line index n st line d =
          evaluate_query index n st d (parse_range (drop 6 line)))
   \<and> (\<not> str_contains ''selectivity'' line \<longrightarrow> \<not> starts_with ''range:'' line \<longrightarrow>
        starts_with ''point:'' line \<longrightarrow>
        process_line index n st line d =
          evaluate_query index n st d (parse_point (drop 6 line)))
   \<and> (\<not> str_contains ''selectivity'' line \<longrightarrow> \<not> starts_with ''range:'' line \<longrightarrow>
        \<not> starts_with ''point:'' line \<longrightarrow>
        process_line index n st line d = Inr ([], [], st))
   \<and> (0 \<le> searchtime st \<longrightarrow>
        (\<exists>e. process_line index n st line d = Inl e)
        \<or> (\<exists>out calls st'. process_line index n st line d = Inr (out, calls, st')
              \<and> (calls \<noteq> [] \<or> searchtime st < searchtime st')) \<longrightarrow>
        \<not> str_contains ''selectivity'' line
        \<and> (starts_with ''range:'' line \<or> starts_with ''point:'' line))"
proof -
  have last: "0 \<le> searchtime st \<longrightarrow>
        (\<exists>e. process_line index n st line d = Inl e)
        \<or> (\<exists>out calls st'. process_line index n st line d = Inr (out, calls, st')
              \<and> (calls \<noteq> [] \<or> searchtime st < searchtime st')) \<longrightarrow>
        \<not> str_contains ''selectivity'' line
        \<and> (starts_with ''range:'' line \<or> starts_with ''point:'' line)"
  proof (intro impI)
    assume nn: "0 \<le> searchtime st"
    assume q: "(\<exists>e. process_line index n st line d = Inl e)
        \<or> (\<exists>out calls st'. process_line index n st line d = Inr (out, calls, st')
              \<and> (calls \<noteq> [] \<or> searchtime st < searchtime st'))"
    have a: "\<not> str_contains ''selectivity'' line"
    proof
      assume h: "str_contains ''selectivity'' line"
      obtain out st' where r: "process_line index n st line d = Inr (out, [], st')"
        "searchtime st' \<le> searchtime st"
        using header_result_shape [OF h nn] by blast
      show False using q r by auto
    qed
    have b: "starts_with ''range:'' line \<or> starts_with ''point:'' line"
    proof (rule ccontr)
      assume "\<not> (starts_with ''range:'' line \<or> starts_with ''point:'' line)"
      then have "process_line index n st line d = Inr ([], [], st)"
        using a by (simp add: process_line_def)
      then show False using q by auto
    qed
    show "\<not> str_contains ''selectivity'' line
        \<and> (starts_with ''range:'' line \<or> starts_with ''point:'' line)"
      using a b by simp
  qed
  have c1: "str_contains ''selectivity'' line \<longrightarrow>
      process_line index n st line d =
        Inr (fst (flush st) @ [Echo line], [], snd (flush st))"
    by (simp add: process_header)
  have c2: "\<not> str_contains ''selectivity'' line \<longrightarrow> starts_with ''range:'' line \<longrightarrow>
        process_line index n st line d =
          evaluate_query index n st d (parse_range (drop 6 line))"
    by (simp add: process_line_def)
  have c3: "\<not> str_contains ''selectivity'' line \<longrightarrow> \<not> starts_with ''range:'' line \<longrightarrow>
        starts_with ''point:'' line \<longrightarrow>
        process_line index n st line d =
          evaluate_query index n st d (parse_point (drop 6 line))"
    by (simp add: process_line_def)
  have c4: "\<not> str_contains ''selectivity'' line \<longrightarrow> \<not> starts_with ''range:'' line \<longrightarrow>
        \<not> starts_with ''point:'' line \<longrightarrow>
        process_line index n st line d = Inr ([], [], st)"
    by (simp add: process_line_def)
  show ?thesis
    by (intro conjI c1 c2 c3 c4 last)
qed

theorem header_lines_take_priority_witness:
  "str_contains ''selectivity'' ''range: 1,2 selectivity''
   \<and> starts_with ''range:'' ''range: 1,2 selectivity''
   \<and> process_line (\<lambda>v n. replicate n True) 3
        \<lparr>blkcount = 3, timecount = 9, searchtime = 2\<rparr> ''range: 1,2 selectivity'' 4 =
       Inr ([AvgBlk (3 / 2), AvgTime (9 / 2000000000), Echo ''range: 1,2 selectivity''], [],
            \<lparr>blkcount = 0, timecount = 0, searchtime = 0\<rparr>)
   \<and> \<not> str_contains ''selectivity'' ''range: 1,2''
   \<and> starts_with ''range:'' ''range: 1,2''
   \<and> process_line (\<lambda>v n. replicate n True) 3
        \<lparr>blkcount = 3, timecount = 9, searchtime = 2\<rparr> ''range: 1,2'' 4 =
       Inr ([], [1, 2], \<lparr>blkcount = 6, timecount = 13, searchtime = 3\<rparr>)
   \<and> \<not> starts_with ''range:'' ''point: 7''
   \<and> starts_with ''point:'' ''point: 7''
   \<and> process_line (\<lambda>v n. replicate n True) 3
        \<lparr>blkcount = 3, timecount = 9, searchtime = 2\<rparr> ''point: 7'' 4 =
       Inr ([], [7], \<lparr>blkcount = 6, timecount = 13, searchtime = 3\<rparr>)
   \<and> \<not> str_contains ''selectivity'' '' range: 1,2''
   \<and> \<not> starts_with ''range:'' '' range: 1,2''
   \<and> \<not> starts_with ''point:'' '' range: 1,2''
   \<and> process_line (\<lambda>v n. replicate n True) 3
        \<lparr>blkcount = 3, timecount = 9, searchtime = 2\<rparr> '' range: 1,2'' 4 =
       Inr ([], [], \<lparr>blkcount = 3, timecount = 9, searchtime = 2\<rparr>)
   \<and> (0 :: int) \<le> searchtime \<lparr>blkcount = 3, timecount = 9, searchtime = 2\<rparr>
   \<and> (starts_with ''range:'' ''range: 1,2'' \<or> starts_with ''point:'' ''range: 1,2'')"
proof -
  let ?ix = "\<lambda>(v :: int) n. replicate n True"
  let ?st = "\<lparr>blkcount = 3, timecount = 9, searchtime = 2\<rparr>"
  have h: "str_contains ''selectivity'' ''range: 1,2 selectivity''"
    by simp
  have nh: "\<not> str_contains ''selectivity'' ''range: 1,2''"
    "\<not> str_contains ''selectivity'' ''point: 7''"
    "\<not> str_contains ''selectivity'' '' range: 1,2''"
    by simp_all
  have sw: "starts_with ''range:'' ''range: 1,2 selectivity''"
    "starts_with ''range:'' ''range: 1,2''"
    "\<not> starts_with ''range:'' ''point: 7''"
    "starts_with ''point:'' ''point: 7''"
    "\<not> starts_with ''range:'' '' range: 1,2''"
    "\<not> starts_with ''point:'' '' range: 1,2''"
    by (simp_all add: starts_with_def)
  have f: "flush ?st = ([AvgBlk (3 / 2), AvgTime (9 / 2000000000)],
                        \<lparr>blkcount = 0, timecount = 0, searchtime = 0\<rparr>)"
    by (simp add: flush_def)
  have c1: "process_line ?ix 3 ?st ''range: 1,2 selectivity'' 4 =
       Inr ([AvgBlk (3 / 2), AvgTime (9 / 2000000000), Echo ''range: 1,2 selectivity''], [],
            \<lparr>blkcount = 0, timecount = 0, searchtime = 0\<rparr>)"
    using header_lines_take_priority [of "''range: 1,2 selectivity''" ?ix 3 ?st 4,
        THEN conjunct1, THEN mp, OF h]
    by (simp add: f)
  have r: "process_line ?ix 3 ?st ''range: 1,2'' 4 =
       Inr ([], [1, 2], \<lparr>blkcount = 6, timecount = 13, searchtime = 3\<rparr>)"
    by (simp add: evaluator_defs upt_rec eval_nat_numeral)
  have p: "process_line ?ix 3 ?st ''point: 7'' 4 =
       Inr ([], [7], \<lparr>blkcount = 6, timecount = 13, searchtime = 3\<rparr>)"
    by (simp add: evaluator_defs upt_rec eval_nat_numeral)
  have c4: "process_line ?ix 3 ?st '' range: 1,2'' 4 = Inr ([], [], ?st)"
    using header_lines_take_priority [of "'' range: 1,2''" ?ix 3 ?st 4,
        THEN conjunct2, THEN conjunct2, THEN conjunct2, THEN conjunct1,
        THEN mp, THEN mp, THEN mp, OF nh(3) sw(5) sw(6)]
    by simp
  have z: "(0 :: int) \<le> searchtime ?st"
    by simp
  have ex: "(\<exists>e. process_line ?ix 3 ?st ''range: 1,2'' 4 = Inl e)
      \<or> (\<exists>out calls st'. process_line ?ix 3 ?st ''range: 1,2'' 4 = Inr (out, calls, st')
            \<and> (calls \<noteq> [] \<or> searchtime ?st < searchtime st'))"
    by (simp add: r)
  have c5: "\<not> str_contains ''selectivity'' ''range: 1,2''
        \<and> (starts_with ''range:'' ''range: 1,2'' \<or> starts_with ''point:'' ''range: 1,2'')"
    by (rule header_lines_take_priority [of "''range: 1,2''" ?ix 3 ?st 4,
        THEN conjunct2, THEN conjunct2, THEN conjunct2, THEN conjunct2,
        THEN mp, THEN mp, OF z ex])
  show ?thesis
    using h nh sw c1 r p c4 z c5 by simp
qed

subsection \<open>Range queries\<close>

text \<open>
  Claim C2 at the range \<^verbatim>\<open>range: 9223372036854775806,9223372036854775807\<close>. The line is read
  as start \<open>LONG_MAX - 1\<close> and end \<open>LONG_MAX\<close>. The loop condition \<^verbatim>\<open>value <= endv\<close> then holds
  for every \<^verbatim>\<open>long\<close>, and after the lookup for \<open>LONG_MAX\<close> the increment \<^verbatim>\<open>value++\<close> overflows.
  Whatever the index structure, processing the line does not produce an accumulator: it ends
  in the overflow, or earlier in a failed \<^verbatim>\<open>Set\<close> if the index reports a stripe beyond
  \<^verbatim>\<open>num_stripes\<close>. For every range that ends below \<open>LONG_MAX\<close> the union property holds, see
  \<open>range_query_accumulates_union\<close> and \<open>range_query_popcount_monotone\<close>.
\<close>

theorem range_ending_at_LONG_MAX_never_completes:
  "parse_range (drop 6 ''range: 9223372036854775806,9223372036854775807'') =
     (Some 9223372036854775806, Some LONG_MAX)
   \<and> (process_line index n st ''range: 9223372036854775806,9223372036854775807'' d =
         Inl SignedOverflow
       \<or> process_line index n st ''range: 9223372036854775806,9223372036854775807'' d =
         Inl BitmapIndexOutOfRange)
   \<and> process_line (\<lambda>v n. replicate n True) 3 st
        ''range: 9223372036854775806,9223372036854775807'' d = Inl SignedOverflow"
proof -
  have p: "parse_range (drop 6 ''range: 9223372036854775806,9223372036854775807'') =
     (Some 9223372036854775806, Some LONG_MAX)"
    by (simp add: parse_range_def extract_long_def extract_char_def isspace_def isdigit_def
        decimal_value_def digit_value_def LONG_MAX_def LONG_MIN_def)
  have q: "process_line index n st ''range: 9223372036854775806,9223372036854775807'' d =
             evaluate_query index n st d (Some 9223372036854775806, Some LONG_MAX)" for index n
    using p by (simp add: process_line_def starts_with_def)
  have le: "9223372036854775806 \<le> LONG_MAX" by (simp add: LONG_MAX_def)
  have g: "process_line index n st ''range: 9223372036854775806,9223372036854775807'' d =
         Inl SignedOverflow
       \<or> process_line index n st ''range: 9223372036854775806,9223372036854775807'' d =
         Inl BitmapIndexOutOfRange"
    using range_loop_end_LONG_MAX [OF le, of index n "Bitmap64_new n False"]
    unfolding q by (auto simp: evaluate_query_def)
  have c: "range_loop (\<lambda>v n. replicate n True) 3 9223372036854775806 LONG_MAX
             (Bitmap64_new 3 False) = Inl SignedOverflow"
    by (rule range_loop_at_LONG_MAX) (simp_all add: LONG_MAX_def Bitmap64_new_def)
  have s: "process_line (\<lambda>v n. replicate n True) 3 st
        ''range: 9223372036854775806,9223372036854775807'' d = Inl SignedOverflow"
    by (simp add: q evaluate_query_def c)
  show ?thesis
    by (intro conjI p g s)
qed

subsection \<open>Lines whose numbers cannot be read\<close>

text \<open>
  Claim C5, as amended. The evaluator does not check whether the numbers after \<^verbatim>\<open>range:\<close> or
  \<^verbatim>\<open>point:\<close> could be read. Every such line without \<^verbatim>\<open>selectivity\<close> whose evaluation
  completes counts as one query: nothing is printed, the query counter grows by one and the
  measured time is added. In particular a \<^verbatim>\<open>point:\<close> line whose remainder begins, after
  white space, with a character that is neither a sign nor a digit is read as start 0 and
  end 0 (a failed extraction stores 0) and is processed as the point query for 0: with an
  index that returns bitmaps of \<^verbatim>\<open>num_stripes\<close> slots, the population count of the lookup of
  0 is added to the block count. The counterexample shows such a line changing the report
  of its group.
\<close>

theorem unparsable_lines_are_evaluated:
  assumes "\<not> str_contains ''selectivity'' line"
  shows "(starts_with ''range:'' line \<or> starts_with ''point:'' line \<longrightarrow>
            process_line index n st line d = Inr (out, calls, st') \<longrightarrow>
            out = [] \<and> searchtime st' = searchtime st + 1 \<and> timecount st' = timecount st + d)
         \<and> (starts_with ''point:'' line \<longrightarrow> drop 6 line = ws @ c # rest \<longrightarrow>
              (\<forall>x\<in>set ws. isspace x) \<longrightarrow> \<not> isspace c \<longrightarrow> \<not> isdigit c \<longrightarrow>
              c \<noteq> CHR ''-'' \<longrightarrow> c \<noteq> CHR ''+'' \<longrightarrow>
              parse_point (drop 6 line) = (Some 0, Some 0)
              \<and> process_line index n st line d = evaluate_query index n st d (Some 0, Some 0)
              \<and> (length (index 0 n) = n \<longrightarrow>
                   process_line index n st line d =
                     Inr ([], [0],
                          st\<lparr>searchtime := searchtime st + 1,
                             blkcount := blkcount st + int (Bitmap64_GetOnesCount (index 0 n)),
                             timecount := timecount st + d\<rparr>)))"
proof -
  have a: "starts_with ''range:'' line \<or> starts_with ''point:'' line \<longrightarrow>
            process_line index n st line d = Inr (out, calls, st') \<longrightarrow>
            out = [] \<and> searchtime st' = searchtime st + 1 \<and> timecount st' = timecount st + d"
  proof (intro impI)
    assume sw: "starts_with ''range:'' line \<or> starts_with ''point:'' line"
    assume r: "process_line index n st line d = Inr (out, calls, st')"
    have "process_line index n st line d =
            evaluate_query index n st d (parse_range (drop 6 line))
          \<or> process_line index n st line d =
            evaluate_query index n st d (parse_point (drop 6 line))"
      using assms sw by (auto simp: process_line_def)
    then obtain bounds where "evaluate_query index n st d bounds = Inr (out, calls, st')"
      using r by metis
    then show "out = [] \<and> searchtime st' = searchtime st + 1 \<and> timecount st' = timecount st + d"
      using evaluate_query_counts by blast
  qed
  have b: "starts_with ''point:'' line \<longrightarrow> drop 6 line = ws @ c # rest \<longrightarrow>
              (\<forall>x\<in>set ws. isspace x) \<longrightarrow> \<not> isspace c \<longrightarrow> \<not> isdigit c \<longrightarrow>
              c \<noteq> CHR ''-'' \<longrightarrow> c \<noteq> CHR ''+'' \<longrightarrow>
              parse_point (drop 6 line) = (Some 0, Some 0)
              \<and> process_line index n st line d = evaluate_query index n st d (Some 0, Some 0)
              \<and> (length (index 0 n) = n \<longrightarrow>
                   process_line index n st line d =
                     Inr ([], [0],
                          st\<lparr>searchtime := searchtime st + 1,
                             blkcount := blkcount st + int (Bitmap64_GetOnesCount (index 0 n)),
                             timecount := timecount st + d\<rparr>))"
  proof (intro impI)
    assume sw: "starts_with ''point:'' line" and dr: "drop 6 line = ws @ c # rest"
      and ws: "\<forall>x\<in>set ws. isspace x" and c: "\<not> isspace c" "\<not> isdigit c"
        "c \<noteq> CHR ''-''" "c \<noteq> CHR ''+''"
    have pp: "parse_point (drop 6 line) = (Some 0, Some 0)"
      unfolding parse_point_def dr
      by (simp only: extract_long_no_number [OF ws c] Let_def prod.case)
    have pl: "process_line index n st line d = evaluate_query index n st d (Some 0, Some 0)"
      using assms sw starts_with_point_not_range [OF sw] by (simp add: process_line_def pp)
    have z: "(0 :: int) < LONG_MAX" by (simp add: LONG_MAX_def)
    have ev: "length (index 0 n) = n \<longrightarrow>
                   process_line index n st line d =
                     Inr ([], [0],
                          st\<lparr>searchtime := searchtime st + 1,
                             blkcount := blkcount st + int (Bitmap64_GetOnesCount (index 0 n)),
                             timecount := timecount st + d\<rparr>)"
      using evaluate_query_single [where index = index and n = n and st = st and d = d, OF z] pl by simp
    show "parse_point (drop 6 line) = (Some 0, Some 0)
              \<and> process_line index n st line d = evaluate_query index n st d (Some 0, Some 0)
              \<and> (length (index 0 n) = n \<longrightarrow>
                   process_line index n st line d =
                     Inr ([], [0],
                          st\<lparr>searchtime := searchtime st + 1,
                             blkcount := blkcount st + int (Bitmap64_GetOnesCount (index 0 n)),
                             timecount := timecount st + d\<rparr>))"
      by (intro conjI pp pl ev)
  qed
  show ?thesis
    by (intro conjI a b)
qed

theorem unparsable_point_line_counterexample:
  "starts_with ''point:'' ''point: abc''
   \<and> \<not> str_contains ''selectivity'' ''point: abc''
   \<and> parse_point (drop 6 ''point: abc'') = (Some 0, Some 0)
   \<and> process_line all_stripes 3 initial_state ''point: abc'' 7 =
       Inr ([], [0], \<lparr>blkcount = 3, timecount = 7, searchtime = 1\<rparr>)
   \<and> process_line all_stripes 3 initial_state ''point: abc'' 7 \<noteq> Inr ([], [], initial_state)
   \<and> evaluate_workload all_stripes 3 [(''selectivity=low'', 0), (''point: abc'', 7)] =
       Inr ([Echo ''selectivity=low'', AvgBlk 3, AvgTime (7 / 1000000000)], [0], initial_state)"
  by (simp add: evaluator_defs all_stripes_def upt_rec eval_nat_numeral)

theorem unparsable_lines_are_evaluated_witness:
  "\<not> str_contains ''selectivity'' ''point: abc''
   \<and> starts_with ''point:'' ''point: abc''
   \<and> drop 6 ''point: abc'' = '' '' @ CHR ''a'' # ''bc''
   \<and> isspace CHR '' '' \<and> \<not> isspace CHR ''a'' \<and> \<not> isdigit CHR ''a''
   \<and> length (all_stripes 0 3) = 3
   \<and> process_line all_stripes 3 initial_state ''point: abc'' 7 =
       Inr ([], [0], \<lparr>blkcount = 3, timecount = 7, searchtime = 1\<rparr>)
   \<and> searchtime \<lparr>blkcount = 3, timecount = 7, searchtime = 1\<rparr> = searchtime initial_state + 1"
proof -
  have a: "\<not> str_contains ''selectivity'' ''point: abc''"
    by simp
  have b: "starts_with ''point:'' ''point: abc''"
    by (simp add: starts_with_def)
  have c: "drop 6 ''point: abc'' = '' '' @ CHR ''a'' # ''bc''"
    by simp
  have ws: "\<forall>x\<in>set '' ''. isspace x"
    by (simp add: isspace_def)
  have ch: "\<not> isspace CHR ''a''" "\<not> isdigit CHR ''a''" "CHR ''a'' \<noteq> CHR ''-''"
    "CHR ''a'' \<noteq> CHR ''+''"
    by (simp_all add: isspace_def isdigit_def)
  have len: "length (all_stripes 0 3) = 3"
    by (simp add: all_stripes_def)
  note T = unparsable_lines_are_evaluated [OF a, of all_stripes 3 initial_state 7
      "[]" "[0]" "\<lparr>blkcount = 3, timecount = 7, searchtime = 1\<rparr>" "'' ''" "CHR ''a''" "''bc''"]
  have r: "process_line all_stripes 3 initial_state ''point: abc'' 7 =
       Inr ([], [0], \<lparr>blkcount = 3, timecount = 7, searchtime = 1\<rparr>)"
    using T [THEN conjunct2, THEN mp, THEN mp, THEN mp, THEN mp, THEN mp, THEN mp, THEN mp,
        OF b c ws ch, THEN conjunct2, THEN conjunct2, THEN mp, OF len]
    by (simp add: initial_state_def all_stripes_def Bitmap64_GetOnesCount_def eval_nat_numeral)
  have q: "searchtime \<lparr>blkcount = 3, timecount = 7, searchtime = 1\<rparr> = searchtime initial_state + 1"
    using T [THEN conjunct1, THEN mp, THEN mp, OF disjI2, OF b r]
    by simp
  show ?thesis
    using a b c ws ch len r q by simp
qed

section \<open>Properties of the lookup sampler\<close>

subsection \<open>Negative lookups\<close>

lemma redraw_absent:
  "redraw column value_d vg = Some r \<Longrightarrow> \<not> Contains column (fst r)"
proof (rule redraw.raw_induct
    [where P = "\<lambda>column value_d vg r. \<not> Contains column (fst r)"])
  fix f column' and value_d' :: "'a \<Rightarrow> int \<times> 'a" and vg' r'
  assume ih: "\<And>c w v y. f c w v = Some y \<Longrightarrow> \<not> Contains c (fst y)"
    and eq: "(if Contains column' (fst vg') then f column' value_d' (value_d' (snd vg'))
              else Some vg') = Some r'"
  show "\<not> Contains column' (fst r')"
  proof (cases "Contains column' (fst vg')")
    case True
    then have "f column' value_d' (value_d' (snd vg')) = Some r'"
      using eq by simp
    then show ?thesis by (rule ih)
  next
    case False
    then show ?thesis using eq by auto
  qed
qed

lemma redraw_returns_funpow:
  "\<not> Contains column (fst ((nxt ^^ j) vg)) \<Longrightarrow> nxt = (\<lambda>vg. value_d (snd vg)) \<Longrightarrow>
   redraw column value_d vg \<noteq> None"
proof (induction j arbitrary: vg)
  case 0
  then show ?case by (subst redraw.simps) simp
next
  case (Suc j)
  show ?case
  proof (cases "Contains column (fst vg)")
    case False
    then show ?thesis by (subst redraw.simps) simp
  next
    case True
    have "(nxt ^^ Suc j) vg = (nxt ^^ j) (nxt vg)"
      by (simp only: funpow_Suc_right o_apply)
    then have "\<not> Contains column (fst ((nxt ^^ j) (nxt vg)))"
      using Suc.prems(1) by simp
    then have "redraw column value_d (nxt vg) \<noteq> None"
      using Suc.prems(2) by (rule Suc.IH)
    then show ?thesis using True Suc.prems(2) by (subst redraw.simps) simp
  qed
qed

lemma redraw_returns:
  "\<not> Contains column (fst (((\<lambda>vg. value_d (snd vg)) ^^ j) vg)) \<Longrightarrow>
   redraw column value_d vg \<noteq> None"
  by (rule redraw_returns_funpow [where nxt = "\<lambda>vg. value_d (snd vg)"]) simp_all

lemma negative_values_absent:
  "negative_values k column value_d gen = Some (vs, gen') \<Longrightarrow>
   length vs = k \<and> (\<forall>v\<in>set vs. \<not> Contains column v)"
proof (induction k arbitrary: gen vs gen')
  case 0
  then show ?case by simp
next
  case (Suc k)
  obtain v g1 where r: "redraw column value_d (value_d gen) = Some (v, g1)"
    using Suc.prems by (auto split: option.splits)
  obtain ws g2 where n: "negative_values k column value_d g1 = Some (ws, g2)"
    using Suc.prems r by (auto split: option.splits)
  have vs: "vs = v # ws" using Suc.prems r n by simp
  have "\<not> Contains column v" using redraw_absent [OF r] by simp
  then show ?case using Suc.IH [OF n] vs by simp
qed

lemma negative_values_returns:
  assumes "\<forall>vg :: int \<times> 'g. \<exists>j. \<not> Contains column (fst (((\<lambda>vg. value_d (snd vg)) ^^ j) vg))"
  shows "negative_values k column value_d gen \<noteq> None"
proof (induction k arbitrary: gen)
  case 0
  show ?case by simp
next
  case (Suc k)
  obtain j where "\<not> Contains column (fst (((\<lambda>vg. value_d (snd vg)) ^^ j) (value_d gen)))"
    using assms by (elim allE [where x = "value_d gen"] exE)
  then have "redraw column value_d (value_d gen) \<noteq> None" by (rule redraw_returns)
  then obtain v g1 where r: "redraw column value_d (value_d gen) = Some (v, g1)" by auto
  show ?case using r Suc.IH [of g1] by (auto split: option.splits)
qed

text \<open>
  Claim C6. Every value in the batch of negative lookups is absent from the column: a draw
  is placed in the batch only after \<^verbatim>\<open>column.Contains(value)\<close> was false for it. This holds
  for every number \<open>k\<close> of iterations and so for the batch of \<^verbatim>\<open>kLookupBatchSize\<close> values, which
  then has exactly that length. The loop that draws again need not end; it does end, and the
  batch is produced, if from every state of the generator an absent value is eventually
  drawn.
\<close>

theorem negative_batch_holds_absent_values:
  "(negative_values k column value_d gen = Some (vs, gen') \<longrightarrow>
      length vs = k \<and> (\<forall>v\<in>set vs. \<not> Contains column v))
   \<and> (BM_NegativeLookup_values column value_d gen = Some (vs, gen') \<longrightarrow>
        length vs = kLookupBatchSize \<and> (\<forall>v\<in>set vs. \<not> Contains column v))
   \<and> ((\<forall>vg :: int \<times> 'g. \<exists>j. \<not> Contains column (fst (((\<lambda>vg. value_d (snd vg)) ^^ j) vg))) \<longrightarrow>
        negative_values k column value_d gen \<noteq> None
        \<and> BM_NegativeLookup_values column value_d gen \<noteq> None)"
  using negative_values_absent [of k column value_d gen vs gen']
    negative_values_absent [of kLookupBatchSize column value_d gen vs gen']
    negative_values_returns [of column value_d]
  unfolding BM_NegativeLookup_values_def by blast

theorem negative_batch_holds_absent_values_witness:
  "negative_values 3 \<lparr>rows = [0, 1]\<rparr> (\<lambda>g. (int g, Suc g)) (0 :: nat) = Some ([2, 3, 4], 5)
   \<and> length [2, 3, 4 :: int] = 3
   \<and> \<not> Contains \<lparr>rows = [0, 1]\<rparr> 2 \<and> \<not> Contains \<lparr>rows = [0, 1]\<rparr> 3
   \<and> \<not> Contains \<lparr>rows = [0, 1]\<rparr> 4
   \<and> (\<forall>vg :: int \<times> nat. \<exists>j.
         \<not> Contains \<lparr>rows = [0, 1]\<rparr> (fst (((\<lambda>vg. (int (snd vg), Suc (snd vg))) ^^ j) vg)))
   \<and> (\<exists>vs gen'. BM_NegativeLookup_values \<lparr>rows = [0, 1]\<rparr> (\<lambda>g. (int g, Suc g)) (0 :: nat)
                    = Some (vs, gen')
         \<and> length vs = kLookupBatchSize
         \<and> list_all (\<lambda>v. \<not> Contains \<lparr>rows = [0, 1]\<rparr> v) vs)"
proof -
  let ?c = "\<lparr>rows = [0, 1]\<rparr>"
  let ?d = "\<lambda>g :: nat. (int g, Suc g)"
  have e: "negative_values 3 ?c ?d 0 = Some ([2, 3, 4], 5)"
    by (simp add: eval_nat_numeral redraw.simps Contains_def)
  have fair: "\<forall>vg :: int \<times> nat. \<exists>j.
         \<not> Contains ?c (fst (((\<lambda>vg. (int (snd vg), Suc (snd vg))) ^^ j) vg))"
  proof
    fix vg :: "int \<times> nat"
    have "\<not> Contains ?c (fst (((\<lambda>vg. (int (snd vg), Suc (snd vg))) ^^ 3) vg))"
      by (simp add: eval_nat_numeral Contains_def)
    then show "\<exists>j. \<not> Contains ?c (fst (((\<lambda>vg. (int (snd vg), Suc (snd vg))) ^^ j) vg))" ..
  qed
  have small: "length [2, 3, 4 :: int] = 3 \<and> \<not> Contains ?c 2 \<and> \<not> Contains ?c 3 \<and> \<not> Contains ?c 4"
    using negative_batch_holds_absent_values [of 3 ?c ?d 0 "[2, 3, 4]" 5,
        THEN conjunct1, THEN mp, OF e]
    by simp
  have ret: "BM_NegativeLookup_values ?c ?d 0 \<noteq> None"
    using negative_batch_holds_absent_values [of 3 ?c ?d 0 "[2, 3, 4]" 5,
        THEN conjunct2, THEN conjunct2, THEN mp] fair
    by simp
  then obtain vs gen' where b: "BM_NegativeLookup_values ?c ?d 0 = Some (vs, gen')"
    by auto
  have "length vs = kLookupBatchSize \<and> (\<forall>v\<in>set vs. \<not> Contains ?c v)"
    using negative_batch_holds_absent_values [of 3 ?c ?d 0 vs gen',
        THEN conjunct2, THEN conjunct1, THEN mp, OF b] .
  then have big: "\<exists>vs gen'. BM_NegativeLookup_values ?c ?d 0 = Some (vs, gen')
         \<and> length vs = kLookupBatchSize \<and> list_all (\<lambda>v. \<not> Contains ?c v) vs"
    using b by (auto simp: list_all_iff)
  show ?thesis
    using e small fair big by (intro conjI) simp_all
qed

subsection \<open>Positive lookups\<close>

lemma offset_upper_pred:
  assumes "dv \<noteq> []"
  shows "offset_upper dv = word_of_nat (length dv - 1)"
proof -
  have "1 \<le> length dv" using assms by (cases dv) simp_all
  then have "(word_of_nat (length dv - 1) :: 64 word) = word_of_nat (length dv) - word_of_nat 1"
    by (rule of_nat_diff)
  then show ?thesis by (simp add: offset_upper_def)
qed

lemma offset_upper_in_bounds:
  assumes "dv \<noteq> []"
  shows "unat (offset_upper dv) < length dv"
proof -
  have "unat (offset_upper dv) = take_bit 64 (length dv - 1)"
    by (simp add: offset_upper_pred [OF assms] unsigned_of_nat)
  also have "\<dots> \<le> length dv - 1" by (rule take_bit_nat_less_eq_self)
  also have "\<dots> < length dv" using assms by (cases dv) simp_all
  finally show ?thesis .
qed

lemma offset_upper_exact:
  assumes "dv \<noteq> []" and "length dv \<le> 2 ^ 64"
  shows "unat (offset_upper dv) = length dv - 1"
proof -
  have "length dv - 1 < 2 ^ 64" using assms by (cases dv) simp_all
  then have "take_bit 64 (length dv - 1) = length dv - 1"
    by (simp add: take_bit_nat_eq_self)
  then show ?thesis
    by (simp add: offset_upper_pred [OF assms(1)] unsigned_of_nat)
qed

lemma offset_upper_empty:
  "offset_upper [] = - 1" "unat (offset_upper []) = 2 ^ 64 - 1"
proof -
  show a: "offset_upper [] = - 1"
    by (simp add: offset_upper_def)
  have "unat (- 1 :: 64 word) = 2 ^ 64 - 1"
    by (simp add: unsigned_minus_1_eq_mask mask_eq_exp_minus_1)
  then show "unat (offset_upper []) = 2 ^ 64 - 1"
    by (simp only: a)
qed

lemma draw_in_bounds:
  assumes "dv \<noteq> []" and "draws_within offset_d"
  shows "unat (fst (offset_d 0 (offset_upper dv) gen)) < length dv"
proof -
  have "fst (offset_d 0 (offset_upper dv) gen) \<le> offset_upper dv"
    using assms(2) by (simp add: draws_within_def)
  then have "unat (fst (offset_d 0 (offset_upper dv) gen)) \<le> unat (offset_upper dv)"
    by (simp add: word_le_nat_alt)
  then show ?thesis using offset_upper_in_bounds [OF assms(1)] by simp
qed

lemma positive_fill_in_bounds:
  assumes "dv \<noteq> []" and "draws_within offset_d"
  shows "\<exists>offs vs gen'. positive_fill k dv offset_d gen = Inr (offs, vs, gen')
           \<and> length offs = k \<and> length vs = k
           \<and> (\<forall>i\<in>set offs. i < length dv) \<and> vs = map (\<lambda>i. dv ! i) offs"
proof (induction k arbitrary: gen)
  case 0
  show ?case by simp
next
  case (Suc k)
  obtain off g1 where d: "offset_d 0 (offset_upper dv) gen = (off, g1)"
    by (cases "offset_d 0 (offset_upper dv) gen")
  have b: "unat off < length dv"
    using draw_in_bounds [OF assms, of gen] d by simp
  obtain offs vs g2 where r: "positive_fill k dv offset_d g1 = Inr (offs, vs, g2)"
    "length offs = k" "length vs = k" "\<forall>i\<in>set offs. i < length dv" "vs = map (\<lambda>i. dv ! i) offs"
    using Suc.IH [of g1] by blast
  show ?case using d b r by simp
qed

lemma positive_fill_empty:
  "positive_fill (Suc k) [] offset_d gen = Inl VectorIndexOutOfRange"
  by (simp split: prod.splits)

lemma nonnull_distinct_members:
  "v \<in> set (nonnull_distinct s column) \<Longrightarrow> Contains column v \<and> v \<noteq> s"
  by (simp add: nonnull_distinct_def distinct_values_def Contains_def)

lemma positive_values_present:
  assumes "nonnull_distinct s column \<noteq> []" and "draws_within offset_d"
  shows "\<exists>offs vs gen'. positive_values k s column offset_d gen = Inr (offs, vs, gen')
           \<and> length vs = k
           \<and> (\<forall>v\<in>set vs. v \<in> set (nonnull_distinct s column) \<and> Contains column v \<and> v \<noteq> s)"
proof -
  let ?dv = "nonnull_distinct s column"
  obtain offs vs g2 where r: "positive_fill k ?dv offset_d gen = Inr (offs, vs, g2)"
    "length vs = k" "\<forall>i\<in>set offs. i < length ?dv" "vs = map (\<lambda>i. ?dv ! i) offs"
    using positive_fill_in_bounds [OF assms, of k gen] by blast
  have "\<forall>v\<in>set vs. v \<in> set ?dv"
    using r(3,4) by auto
  then have "\<forall>v\<in>set vs. v \<in> set ?dv \<and> Contains column v \<and> v \<noteq> s"
    using nonnull_distinct_members by blast
  then show ?thesis using r(1,2) by (simp add: positive_values_def)
qed

text \<open>
  Claim C7. If the column has at least one distinct value other than the null sentinel, and
  the offset distribution draws within its bounds as the standard requires, then the batch is
  produced and each of its values is an element of the distinct values without the sentinel:
  it is contained in the column and is not the sentinel. The sentinel is never in that list.
  This holds for every number \<open>k\<close> of iterations and for the batch of \<^verbatim>\<open>kLookupBatchSize\<close>
  values.
\<close>

theorem positive_batch_holds_present_values:
  assumes "nonnull_distinct s column \<noteq> []" and "draws_within offset_d"
  shows "s \<notin> set (nonnull_distinct s column)
         \<and> (\<exists>offs vs gen'. positive_values k s column offset_d gen = Inr (offs, vs, gen')
              \<and> length vs = k
              \<and> (\<forall>v\<in>set vs. v \<in> set (nonnull_distinct s column)
                    \<and> Contains column v \<and> v \<noteq> s))
         \<and> (\<exists>offs vs gen'.
               BM_PositiveDistinctLookup_values s column offset_d gen = Inr (offs, vs, gen')
              \<and> length vs = kLookupBatchSize
              \<and> (\<forall>v\<in>set vs. v \<in> set (nonnull_distinct s column)
                    \<and> Contains column v \<and> v \<noteq> s))"
proof -
  have a: "s \<notin> set (nonnull_distinct s column)"
    by (simp add: nonnull_distinct_def)
  show ?thesis
    unfolding BM_PositiveDistinctLookup_values_def
    by (intro conjI a positive_values_present [OF assms])
qed

theorem positive_batch_holds_present_values_witness:
  "nonnull_distinct (- 5) \<lparr>rows = [7, - 5, 7, 9]\<rparr> = [7, 9]
   \<and> draws_within (\<lambda>a b g. (if g then b else a, \<not> g))
   \<and> positive_values 4 (- 5) \<lparr>rows = [7, - 5, 7, 9]\<rparr> (\<lambda>a b g. (if g then b else a, \<not> g)) False
       = Inr ([0, 1, 0, 1], [7, 9, 7, 9], False)
   \<and> Contains \<lparr>rows = [7, - 5, 7, 9]\<rparr> 7 \<and> Contains \<lparr>rows = [7, - 5, 7, 9]\<rparr> 9
   \<and> (\<exists>offs vs gen'.
         BM_PositiveDistinctLookup_values (- 5) \<lparr>rows = [7, - 5, 7, 9]\<rparr>
           (\<lambda>a b g. (if g then b else a, \<not> g)) False = Inr (offs, vs, gen')
         \<and> length vs = kLookupBatchSize
         \<and> list_all (\<lambda>v. Contains \<lparr>rows = [7, - 5, 7, 9]\<rparr> v \<and> v \<noteq> - 5) vs)"
proof -
  let ?c = "\<lparr>rows = [7, - 5, 7, 9]\<rparr>"
  let ?d = "\<lambda>(a :: 64 word) (b :: 64 word) g. (if g then b else a, \<not> g)"
  have dv: "nonnull_distinct (- 5) ?c = [7, 9]"
    by (simp add: nonnull_distinct_def distinct_values_def)
  have ne: "nonnull_distinct (- 5) ?c \<noteq> []"
    by (simp add: dv)
  have dw: "draws_within ?d"
    by (simp add: draws_within_def)
  have ev: "positive_values 4 (- 5) ?c ?d False = Inr ([0, 1, 0, 1], [7, 9, 7, 9], False)"
    by (simp add: positive_values_def dv offset_upper_def eval_nat_numeral)
  have cs: "Contains ?c 7 \<and> Contains ?c 9"
    by (simp add: Contains_def)
  have big: "\<exists>offs vs gen'.
         BM_PositiveDistinctLookup_values (- 5) ?c ?d False = Inr (offs, vs, gen')
         \<and> length vs = kLookupBatchSize
         \<and> list_all (\<lambda>v. Contains ?c v \<and> v \<noteq> - 5) vs"
    using positive_batch_holds_present_values [OF ne dw, of 4 False,
        THEN conjunct2, THEN conjunct2]
    by (auto simp: list_all_iff)
  show ?thesis
    using dv dw ev cs big by (intro conjI) simp_all
qed

text \<open>
  Claim C10. If the list of distinct values without the sentinel is not empty, the upper bound
  \<^verbatim>\<open>distinct_values.size() - 1\<close> is below the length of the list (and equals the length minus
  one for every length a \<^verbatim>\<open>size_t\<close> can hold), and with a distribution that draws within its
  bounds every offset read is inside the list and the batch is produced. If the list is empty,
  the subtraction wraps around to \<open>2^64 - 1\<close> and the first read is outside the list, whatever
  the distribution draws.
\<close>

theorem positive_offsets_in_bounds_iff_nonempty:
  "(nonnull_distinct s column \<noteq> [] \<longrightarrow>
      unat (offset_upper (nonnull_distinct s column)) < length (nonnull_distinct s column)
      \<and> (length (nonnull_distinct s column) \<le> 2 ^ 64 \<longrightarrow>
           unat (offset_upper (nonnull_distinct s column))
             = length (nonnull_distinct s column) - 1)
      \<and> (draws_within offset_d \<longrightarrow>
           (\<exists>offs vs gen'. positive_values k s column offset_d gen = Inr (offs, vs, gen')
              \<and> length offs = k
              \<and> (\<forall>i\<in>set offs. i < length (nonnull_distinct s column))
              \<and> vs = map (\<lambda>i. nonnull_distinct s column ! i) offs)))
   \<and> (nonnull_distinct s column = [] \<longrightarrow>
        offset_upper (nonnull_distinct s column) = - 1
        \<and> unat (offset_upper (nonnull_distinct s column)) = 2 ^ 64 - 1
        \<and> positive_values (Suc k) s column offset_d gen = Inl VectorIndexOutOfRange
        \<and> BM_PositiveDistinctLookup_values s column offset_d gen = Inl VectorIndexOutOfRange)"
proof -
  let ?dv = "nonnull_distinct s column"
  have a: "?dv \<noteq> [] \<longrightarrow>
      unat (offset_upper ?dv) < length ?dv
      \<and> (length ?dv \<le> 2 ^ 64 \<longrightarrow> unat (offset_upper ?dv) = length ?dv - 1)
      \<and> (draws_within offset_d \<longrightarrow>
           (\<exists>offs vs gen'. positive_values k s column offset_d gen = Inr (offs, vs, gen')
              \<and> length offs = k
              \<and> (\<forall>i\<in>set offs. i < length ?dv)
              \<and> vs = map (\<lambda>i. ?dv ! i) offs))"
  proof (intro impI conjI)
    assume ne: "?dv \<noteq> []"
    show "unat (offset_upper ?dv) < length ?dv"
      using ne by (rule offset_upper_in_bounds)
    show "unat (offset_upper ?dv) = length ?dv - 1" if "length ?dv \<le> 2 ^ 64"
      using ne that by (rule offset_upper_exact)
    show "\<exists>offs vs gen'. positive_values k s column offset_d gen = Inr (offs, vs, gen')
              \<and> length offs = k
              \<and> (\<forall>i\<in>set offs. i < length ?dv)
              \<and> vs = map (\<lambda>i. ?dv ! i) offs" if "draws_within offset_d"
      using positive_fill_in_bounds [OF ne that, of k gen]
      unfolding positive_values_def by blast
  qed
  have kb: "kLookupBatchSize = Suc (kLookupBatchSize - 1)"
    by (simp add: kLookupBatchSize_def)
  have b: "?dv = [] \<longrightarrow>
        offset_upper ?dv = - 1
        \<and> unat (offset_upper ?dv) = 2 ^ 64 - 1
        \<and> positive_values (Suc k) s column offset_d gen = Inl VectorIndexOutOfRange
        \<and> BM_PositiveDistinctLookup_values s column offset_d gen = Inl VectorIndexOutOfRange"
  proof (intro impI conjI)
    assume e: "?dv = []"
    show "offset_upper ?dv = - 1"
      unfolding e by (rule offset_upper_empty(1))
    show "unat (offset_upper ?dv) = 2 ^ 64 - 1"
      unfolding e by (rule offset_upper_empty(2))
    show "positive_values (Suc k) s column offset_d gen = Inl VectorIndexOutOfRange"
      unfolding positive_values_def e by (rule positive_fill_empty)
    have "positive_values (Suc (kLookupBatchSize - 1)) s column offset_d gen
            = Inl VectorIndexOutOfRange"
      unfolding positive_values_def e by (rule positive_fill_empty)
    then show "BM_PositiveDistinctLookup_values s column offset_d gen = Inl VectorIndexOutOfRange"
      unfolding BM_PositiveDistinctLookup_values_def using kb by simp
  qed
  show ?thesis
    by (intro conjI a b)
qed

theorem positive_offsets_in_bounds_iff_nonempty_witness:
  "nonnull_distinct (- 5) \<lparr>rows = [7, - 5, 7, 9]\<rparr> = [7, 9]
   \<and> offset_upper [7, 9] = 1
   \<and> unat (offset_upper (nonnull_distinct (- 5) \<lparr>rows = [7, - 5, 7, 9]\<rparr>)) = 1
   \<and> (\<exists>offs vs gen'. positive_values 4 (- 5) \<lparr>rows = [7, - 5, 7, 9]\<rparr>
          (\<lambda>a b g. (if g then b else a, \<not> g)) False = Inr (offs, vs, gen')
        \<and> length offs = 4 \<and> list_all (\<lambda>i. i < 2) offs)
   \<and> length [7, 9 :: int] \<le> 2 ^ 64
   \<and> draws_within (\<lambda>a b g. (if g then b else a, \<not> g))
   \<and> positive_values 4 (- 5) \<lparr>rows = [7, - 5, 7, 9]\<rparr> (\<lambda>a b g. (if g then b else a, \<not> g)) False
       = Inr ([0, 1, 0, 1], [7, 9, 7, 9], False)
   \<and> nonnull_distinct (- 5) \<lparr>rows = [- 5, - 5]\<rparr> = []
   \<and> offset_upper [] = 18446744073709551615
   \<and> positive_values (Suc 0) (- 5) \<lparr>rows = [- 5, - 5]\<rparr> (\<lambda>a b g. (if g then b else a, \<not> g)) False
       = Inl VectorIndexOutOfRange
   \<and> BM_PositiveDistinctLookup_values (- 5) \<lparr>rows = [- 5, - 5]\<rparr>
        (\<lambda>a b g. (if g then b else a, \<not> g)) False = Inl VectorIndexOutOfRange"
proof -
  let ?c = "\<lparr>rows = [7, - 5, 7, 9]\<rparr>"
  let ?n = "\<lparr>rows = [- 5, - 5]\<rparr>"
  let ?d = "\<lambda>(a :: 64 word) (b :: 64 word) g. (if g then b else a, \<not> g)"
  have dv: "nonnull_distinct (- 5) ?c = [7, 9]"
    by (simp add: nonnull_distinct_def distinct_values_def)
  have ne: "nonnull_distinct (- 5) ?c \<noteq> []"
    by (simp add: dv)
  have up: "offset_upper [7, 9] = 1"
    by (simp add: offset_upper_def)
  have le: "length [7, 9 :: int] \<le> 2 ^ 64"
    by simp
  have le': "length (nonnull_distinct (- 5) ?c) \<le> 2 ^ 64"
    by (simp add: dv)
  have dw: "draws_within ?d"
    by (simp add: draws_within_def)
  have ev: "positive_values 4 (- 5) ?c ?d False = Inr ([0, 1, 0, 1], [7, 9, 7, 9], False)"
    by (simp add: positive_values_def dv offset_upper_def eval_nat_numeral)
  have em: "nonnull_distinct (- 5) ?n = []"
    by (simp add: nonnull_distinct_def distinct_values_def)
  have bad: "offset_upper (nonnull_distinct (- 5) ?n) = - 1
      \<and> unat (offset_upper (nonnull_distinct (- 5) ?n)) = 2 ^ 64 - 1
      \<and> positive_values (Suc 0) (- 5) ?n ?d False = Inl VectorIndexOutOfRange
      \<and> BM_PositiveDistinctLookup_values (- 5) ?n ?d False = Inl VectorIndexOutOfRange"
    using positive_offsets_in_bounds_iff_nonempty [of "- 5" ?n ?d 0 False,
        THEN conjunct2, THEN mp, OF em] .
  have good: "unat (offset_upper (nonnull_distinct (- 5) ?c)) < length (nonnull_distinct (- 5) ?c)"
    using positive_offsets_in_bounds_iff_nonempty [of "- 5" ?c ?d 4 False,
        THEN conjunct1, THEN mp, OF ne, THEN conjunct1] .
  have mx: "offset_upper [] = 18446744073709551615"
    by (simp add: offset_upper_def)
  note G = positive_offsets_in_bounds_iff_nonempty [of "- 5" ?c ?d 4 False,
        THEN conjunct1, THEN mp, OF ne]
  have exact: "unat (offset_upper (nonnull_distinct (- 5) ?c)) = 1"
    using G [THEN conjunct2, THEN conjunct1, THEN mp, OF le'] by (simp add: dv)
  have offs: "\<exists>offs vs gen'. positive_values 4 (- 5) ?c ?d False = Inr (offs, vs, gen')
        \<and> length offs = 4 \<and> list_all (\<lambda>i. i < 2) offs"
    using G [THEN conjunct2, THEN conjunct2, THEN mp, OF dw]
    by (auto simp: dv list_all_iff numeral_2_eq_2)
  show ?thesis
    using dv up le dw ev em bad good mx exact offs by (intro conjI) simp_all
qed

end
